theory Spec2Isabelle
  imports
    Complex_Main
    "HOL-Library.Multiset"
    "HOL-Library.Sublist"
    "HOL-Library.Char_ord"
    "HOL-Library.List_Lexorder"
begin

section \<open>The service list of kiali-ui: filtering, sorting, paging, persistence\<close>

text \<open>
  The development embeds \<^verbatim>\<open>src/pages/ServiceList/ServiceListComponent.tsx\<close> and the
  persistence configuration of \<^verbatim>\<open>src/store/ConfigStore.ts\<close>.

  JavaScript numbers are modelled by \<^typ>\<open>int\<close> where the code only counts and indexes,
  and by \<^typ>\<open>rat\<close> for the results of comparators (exact arithmetic: no rounding, no
  \<^verbatim>\<open>NaN\<close>). Objects and arrays that the code shares and mutates live in an explicit
  store; everything else is a value.
\<close>

subsection \<open>Built-ins of the language\<close>

text \<open>
  \<^verbatim>\<open>String.prototype.includes\<close>: the argument occurs as a contiguous run of characters.
\<close>

fun str_includes :: "string \<Rightarrow> string \<Rightarrow> bool" where
  "str_includes [] t = (t = [])"
| "str_includes (c # cs) t = (prefix t (c # cs) \<or> str_includes cs t)"

text \<open>
  \<^verbatim>\<open>Array.prototype.indexOf\<close>: the first index holding the value, \<open>-1\<close> when there is
  none.
\<close>

fun indexOf :: "'a list \<Rightarrow> 'a \<Rightarrow> int" where
  "indexOf [] v = - 1"
| "indexOf (x # xs) v =
     (if x = v then 0 else (let i = indexOf xs v in if i < 0 then - 1 else i + 1))"

text \<open>
  \<^verbatim>\<open>Array.prototype.filter\<close> with a callback that also reads the index. It builds a
  new array and leaves the receiver as it is.
\<close>

definition filter_indexed :: "('a \<Rightarrow> nat \<Rightarrow> bool) \<Rightarrow> 'a list \<Rightarrow> 'a list" where
  "filter_indexed P xs = map fst (filter (\<lambda>(x, i). P x i) (zip xs [0 ..< length xs]))"

subsection \<open>Service overviews and the filters\<close>

record ServiceOverview =
  name :: string
  istioSidecar :: bool

text \<open>
  \<^verbatim>\<open>cleanIstioFilters\<close>: keep the first occurrence of every value; two remaining values
  mean that nothing is filtered.
\<close>

definition cleanIstioFilters :: "string list \<Rightarrow> string list" where
  "cleanIstioFilters istioFilters =
     (if length istioFilters = 0 then []
      else
        (let cleanArray = filter_indexed (\<lambda>iFilter i. indexOf istioFilters iFilter = int i) istioFilters
         in if length cleanArray = 2 then [] else cleanArray))"

text \<open>
  The first occurrences of the values of a list, in their order: what the filter of
  \<^verbatim>\<open>cleanIstioFilters\<close> keeps.
\<close>

definition firsts :: "'a list \<Rightarrow> 'a list" where
  "firsts xs = filter_indexed (\<lambda>x i. indexOf xs x = int i) xs"

text \<open>
  The loop of \<^verbatim>\<open>isFiltered\<close> over the service-name filters, started with
  \<^verbatim>\<open>serviceNameFiltered = false\<close>: it stops with \<open>True\<close> at the first filter the name
  includes.
\<close>

fun serviceNameLoop :: "string \<Rightarrow> string list \<Rightarrow> bool" where
  "serviceNameLoop n [] = False"
| "serviceNameLoop n (f # fs) = (if str_includes n f then True else serviceNameLoop n fs)"

definition isFiltered :: "'a ServiceOverview_scheme \<Rightarrow> string list \<Rightarrow> string list \<Rightarrow> bool" where
  "isFiltered service servicenameFilters istioFilters =
     (let serviceNameFiltered =
            (if length servicenameFilters > 0 then serviceNameLoop (name service) servicenameFilters
             else True);
          istioFiltered =
            (case istioFilters of
               [f] \<Rightarrow>
                 (let r = (if f = ''Present'' then istioSidecar service else True)
                  in if f = ''Not Present'' then \<not> istioSidecar service else r)
             | _ \<Rightarrow> True)
      in serviceNameFiltered \<and> istioFiltered)"

text \<open>
  The filtering step of \<^verbatim>\<open>fetchServices\<close>: the list of one response is filtered only
  when one of the two filter lists is not empty.
\<close>

definition filterServices ::
  "string list \<Rightarrow> string list \<Rightarrow> 'a ServiceOverview_scheme list \<Rightarrow> 'a ServiceOverview_scheme list" where
  "filterServices servicenameFilters istioFilters serviceList =
     (if length servicenameFilters > 0 \<or> length istioFilters > 0
      then filter (\<lambda>service. isFiltered service servicenameFilters istioFilters) serviceList
      else serviceList)"

text \<open>
  The reading of the filter contract that the list pipeline is compared with: a filter of
  the name category matches by containment, a filter of the sidecar category matches when
  it is the label of the service's sidecar flag; a category passes when it has no filter or
  one of its filters matches.
\<close>

definition sidecarLabel :: "bool \<Rightarrow> string" where
  "sidecarLabel b = (if b then ''Present'' else ''Not Present'')"

definition passesCategory :: "('f \<Rightarrow> bool) \<Rightarrow> 'f list \<Rightarrow> bool" where
  "passesCategory matches fs = (fs = [] \<or> list_ex matches fs)"

definition passesFilters :: "'a ServiceOverview_scheme \<Rightarrow> string list \<Rightarrow> string list \<Rightarrow> bool" where
  "passesFilters service servicenameFilters istioFilters =
     (passesCategory (\<lambda>f. sublist f (name service)) servicenameFilters \<and>
      passesCategory (\<lambda>f. f = sidecarLabel (istioSidecar service)) istioFilters)"

subsection \<open>Promises, failures and the store\<close>

text \<open>
  What a rejected promise or a thrown exception carries: the \<^verbatim>\<open>TypeError\<close> of reading a
  property of \<^verbatim>\<open>undefined\<close>, or the error of a failed health request.
\<close>

datatype reason = TypeError | HealthError string

text \<open>
  A promise is modelled by the state it settles in; \<open>Pending\<close> is a promise that never
  settles. The order in which the reactions of settled promises run is a separate
  argument, the schedule (see \<open>settle\<close> below).
\<close>

datatype 'a promise = Pending | Fulfilled 'a | Rejected reason

text \<open>
  \<^verbatim>\<open>types/Health\<close> is not part of the sources at hand: the request data of a health
  value stays a type parameter \<open>'q\<close>, and \<^verbatim>\<open>getRequestErrorsRatio(q).value\<close> is the
  parameter \<open>errorsRatio\<close> of the comparators.
\<close>

record 'q ServiceHealth =
  requests :: 'q

text \<open>
  A service item is a service overview with its namespace and its health promise. The
  field \<open>health\<close> is the property that \<^verbatim>\<open>sortServices\<close> writes through its
  \<^verbatim>\<open>any\<close>-typed alias: \<open>None\<close> while the object has no such property.
\<close>

record 'q ServiceItem = ServiceOverview +
  namespace :: string
  healthPromise :: "'q ServiceHealth promise"
  health :: "'q ServiceHealth option"

text \<open>
  Items and arrays of items are objects with an identity: the store maps the address of
  an item to the item, and the address of an array to the addresses of its elements.
  \<open>next_array\<close> is the address the next new array gets.
\<close>

type_synonym ref = nat

record 'q heap =
  items :: "ref \<Rightarrow> 'q ServiceItem"
  arrays :: "ref \<Rightarrow> ref list"
  next_array :: ref

subsection \<open>Comparators and sort fields\<close>

text \<open>
  \<^verbatim>\<open>String.prototype.localeCompare\<close> compares by the collation of the host's locale,
  which the program does not fix: it is the parameter \<open>localeCompare\<close> of the comparators
  and of \<open>sortFields\<close>. It returns a negative number, zero or a positive number; strings
  that differ may compare as zero. Where an order is claimed, what is assumed of it is
  that it is a consistent comparison: swapping the arguments gives the opposite sign, and
  "not after" is transitive.
\<close>

definition consistent_comparison :: "('a \<Rightarrow> 'a \<Rightarrow> rat) \<Rightarrow> bool" where
  "consistent_comparison cmp =
     ((\<forall>a b. sgn (cmp b a) = - sgn (cmp a b)) \<and>
      (\<forall>a b c. cmp a b \<le> 0 \<and> cmp b c \<le> 0 \<longrightarrow> cmp a c \<le> 0))"

record 'q SortField =
  title :: string
  isNumeric :: bool
  param :: string
  compare :: "'q ServiceItem \<Rightarrow> 'q ServiceItem \<Rightarrow> reason + rat"

definition compareNamespace ::
  "(string \<Rightarrow> string \<Rightarrow> rat) \<Rightarrow> 'q ServiceItem \<Rightarrow> 'q ServiceItem \<Rightarrow> reason + rat" where
  "compareNamespace localeCompare a b =
     (let sortValue = localeCompare (namespace a) (namespace b)
      in Inr (if sortValue = 0 then localeCompare (name a) (name b) else sortValue))"

definition compareServiceName ::
  "(string \<Rightarrow> string \<Rightarrow> rat) \<Rightarrow> 'q ServiceItem \<Rightarrow> 'q ServiceItem \<Rightarrow> reason + rat" where
  "compareServiceName localeCompare a b = Inr (localeCompare (name a) (name b))"

definition compareIstioSidecar ::
  "(string \<Rightarrow> string \<Rightarrow> rat) \<Rightarrow> 'q ServiceItem \<Rightarrow> 'q ServiceItem \<Rightarrow> reason + rat" where
  "compareIstioSidecar localeCompare a b =
     Inr (if istioSidecar a \<and> \<not> istioSidecar b then - 1
          else if \<not> istioSidecar a \<and> istioSidecar b then 1
          else localeCompare (name a) (name b))"

text \<open>
  The comparator of the error rate reads \<^verbatim>\<open>a.health.requests\<close>: on an item without
  the property \<^verbatim>\<open>health\<close> that is a \<^verbatim>\<open>TypeError\<close>.
\<close>

definition compareErrorRate ::
  "(string \<Rightarrow> string \<Rightarrow> rat) \<Rightarrow> ('q \<Rightarrow> rat) \<Rightarrow>
   'q ServiceItem \<Rightarrow> 'q ServiceItem \<Rightarrow> reason + rat" where
  "compareErrorRate localeCompare errorsRatio a b =
     (case health a of
        None \<Rightarrow> Inl TypeError
      | Some healthA \<Rightarrow>
          (case health b of
             None \<Rightarrow> Inl TypeError
           | Some healthB \<Rightarrow>
               (let ratioA = errorsRatio (requests healthA);
                    ratioB = errorsRatio (requests healthB)
                in Inr (if ratioA = ratioB then localeCompare (name a) (name b)
                        else ratioA - ratioB))))"

definition sortFields ::
  "(string \<Rightarrow> string \<Rightarrow> rat) \<Rightarrow> ('q \<Rightarrow> rat) \<Rightarrow> 'q SortField list" where
  "sortFields localeCompare errorsRatio =
     [\<lparr>title = ''Namespace'', isNumeric = False, param = ''ns'',
       compare = compareNamespace localeCompare\<rparr>,
      \<lparr>title = ''Service Name'', isNumeric = False, param = ''sn'',
       compare = compareServiceName localeCompare\<rparr>,
      \<lparr>title = ''Istio Sidecar'', isNumeric = False, param = ''is'',
       compare = compareIstioSidecar localeCompare\<rparr>,
      \<lparr>title = ''Error Rate'', isNumeric = True, param = ''er'',
       compare = compareErrorRate localeCompare errorsRatio\<rparr>]"

subsection \<open>Sorting an array\<close>

text \<open>
  \<^verbatim>\<open>Array.prototype.sort\<close> with a comparator. The language leaves the algorithm open and
  asks for a stable sort; for a comparator that is a consistent ordering every conforming
  algorithm gives the same array, which is the one this stable insertion sort gives. An
  exception thrown by the comparator ends the sort.
\<close>

fun insert_by :: "('a \<Rightarrow> 'a \<Rightarrow> reason + rat) \<Rightarrow> 'a \<Rightarrow> 'a list \<Rightarrow> reason + 'a list" where
  "insert_by cmp x [] = Inr [x]"
| "insert_by cmp x (y # ys) =
     (case cmp x y of
        Inl e \<Rightarrow> Inl e
      | Inr c \<Rightarrow>
          if c \<le> 0 then Inr (x # y # ys)
          else (case insert_by cmp x ys of Inl e \<Rightarrow> Inl e | Inr zs \<Rightarrow> Inr (y # zs)))"

fun array_sort :: "('a \<Rightarrow> 'a \<Rightarrow> reason + rat) \<Rightarrow> 'a list \<Rightarrow> reason + 'a list" where
  "array_sort cmp [] = Inr []"
| "array_sort cmp (x # xs) =
     (case array_sort cmp xs of Inl e \<Rightarrow> Inl e | Inr ys \<Rightarrow> insert_by cmp x ys)"

text \<open>
  The comparator that \<^verbatim>\<open>sortServices\<close> hands to \<^verbatim>\<open>sort\<close>, and the comparison of two
  elements of an array of items, which are addresses.
\<close>

definition direction ::
  "bool \<Rightarrow> ('a \<Rightarrow> 'a \<Rightarrow> reason + rat) \<Rightarrow> 'a \<Rightarrow> 'a \<Rightarrow> reason + rat" where
  "direction isAscending cmp = (if isAscending then cmp else (\<lambda>a b. cmp b a))"

definition on_items ::
  "'q heap \<Rightarrow> ('q ServiceItem \<Rightarrow> 'q ServiceItem \<Rightarrow> reason + rat) \<Rightarrow> ref \<Rightarrow> ref \<Rightarrow> reason + rat" where
  "on_items h cmp a b = cmp (items h a) (items h b)"

text \<open>
  The order a comparator stands for: \<open>precedes cmp a b\<close> when the comparison returns a
  number that is not positive, so that \<open>a\<close> may stand before \<open>b\<close>. A comparator is
  consistent on a set when it returns a number for every two elements, the signs of
  \<open>cmp a b\<close> and \<open>cmp b a\<close> are opposite, and \<open>precedes cmp\<close> is transitive: a total
  preorder, in which two different elements may still tie.
\<close>

definition precedes :: "('a \<Rightarrow> 'a \<Rightarrow> reason + rat) \<Rightarrow> 'a \<Rightarrow> 'a \<Rightarrow> bool" where
  "precedes cmp a b = (case cmp a b of Inl e \<Rightarrow> False | Inr c \<Rightarrow> c \<le> 0)"

definition consistent_on :: "'a set \<Rightarrow> ('a \<Rightarrow> 'a \<Rightarrow> reason + rat) \<Rightarrow> bool" where
  "consistent_on S cmp =
     ((\<forall>a\<in>S. \<forall>b\<in>S. \<exists>x y. cmp a b = Inr x \<and> cmp b a = Inr y \<and> sgn y = - sgn x) \<and>
      (\<forall>a\<in>S. \<forall>b\<in>S. \<forall>c\<in>S. precedes cmp a b \<and> precedes cmp b c \<longrightarrow> precedes cmp a c))"

subsection \<open>sortServices\<close>

text \<open>
  The reaction of \<^verbatim>\<open>item.healthPromise.then\<close>: it writes the health into the item
  itself (\<^verbatim>\<open>withHealth\<close> is the same object as \<^verbatim>\<open>item\<close>) and fulfils with that object.
\<close>

definition attach_health :: "'q heap \<Rightarrow> ref \<Rightarrow> 'q ServiceHealth \<Rightarrow> 'q heap" where
  "attach_health h item v = h\<lparr>items := (items h)(item := (items h item)\<lparr>health := Some v\<rparr>)\<rparr>"

text \<open>
  The schedule lists positions of the array in the order in which the health promises at
  these positions settle and their reactions run. A fulfilled promise runs the reaction
  above; the first rejected one rejects \<^verbatim>\<open>Promise.all\<close>, which keeps that reason. A
  position outside the array, or one whose promise never settles, has no reaction.
\<close>

fun settle ::
  "(ref \<times> 'q ServiceHealth promise) list \<Rightarrow> nat list \<Rightarrow> 'q heap \<times> reason option \<Rightarrow>
   'q heap \<times> reason option" where
  "settle ps [] st = st"
| "settle ps (i # schedule) (h, rejection) =
     (if i < length ps then
        (case snd (ps ! i) of
           Fulfilled v \<Rightarrow> settle ps schedule (attach_health h (fst (ps ! i)) v, rejection)
         | Rejected e \<Rightarrow>
             settle ps schedule (h, if rejection = None then Some e else rejection)
         | Pending \<Rightarrow> settle ps schedule (h, rejection))
      else settle ps schedule (h, rejection))"

text \<open>
  The value a promise resolves with, if it does.
\<close>

definition resolved :: "'a promise \<Rightarrow> 'a option" where
  "resolved p = (case p of Fulfilled v \<Rightarrow> Some v | _ \<Rightarrow> None)"

text \<open>
  \<^verbatim>\<open>Promise.all\<close> fulfils once every promise of the array has been fulfilled.
\<close>

definition joined :: "(ref \<times> 'q ServiceHealth promise) list \<Rightarrow> nat list \<Rightarrow> bool" where
  "joined ps schedule =
     list_all (\<lambda>i. i \<in> set schedule \<and> (case snd (ps ! i) of Fulfilled v \<Rightarrow> True | _ \<Rightarrow> False))
       [0 ..< length ps]"

text \<open>
  \<^verbatim>\<open>sortServices\<close> returns a promise, or throws (\<open>Inl\<close>) when the synchronous sort does.
  The second component is the store afterwards, once the scheduled reactions have run.
  In the health-dependent case the array that is sorted is the new array of
  \<^verbatim>\<open>Promise.all\<close>; otherwise it is the array that was passed in.
\<close>

definition sortServices ::
  "nat list \<Rightarrow> 'q heap \<Rightarrow> ref \<Rightarrow> 'q SortField \<Rightarrow> bool \<Rightarrow> (reason + ref promise) \<times> 'q heap" where
  "sortServices schedule h services sortField isAscending =
     (if title sortField = ''Error Rate'' then
        (let allHealthPromises = map (\<lambda>item. (item, healthPromise (items h item))) (arrays h services);
             (h1, rejection) = settle allHealthPromises schedule (h, None)
         in case rejection of
              Some e \<Rightarrow> (Inr (Rejected e), h1)
            | None \<Rightarrow>
                if joined allHealthPromises schedule then
                  (let arr = next_array h1;
                       h2 = h1\<lparr>arrays := (arrays h1)(arr := map fst allHealthPromises),
                               next_array := Suc arr\<rparr>
                   in case array_sort (on_items h2 (direction isAscending (compare sortField)))
                             (arrays h2 arr) of
                        Inl e \<Rightarrow> (Inr (Rejected e), h2)
                      | Inr sorted_refs \<Rightarrow>
                          (Inr (Fulfilled arr), h2\<lparr>arrays := (arrays h2)(arr := sorted_refs)\<rparr>))
                else (Inr Pending, h1))
      else
        (case array_sort (on_items h (direction isAscending (compare sortField)))
                (arrays h services) of
           Inl e \<Rightarrow> (Inl e, h)
         | Inr sorted_refs \<Rightarrow>
             (Inr (Fulfilled services), h\<lparr>arrays := (arrays h)(services := sorted_refs)\<rparr>)))"

subsection \<open>The component\<close>

record Pagination =
  page :: int
  perPage :: int
  perPageOptions :: "int list"

record 'q ServiceListComponentState =
  services :: ref
  pagination :: Pagination
  currentSortField :: "'q SortField"
  isSortAscending :: bool
  rateInterval :: int

text \<open>
  The component: the store, its state, and the calls of
  \<^verbatim>\<open>pageHooks.onParamChange\<close> made so far.
\<close>

record 'q component =
  store :: "'q heap"
  state :: "'q ServiceListComponentState"
  paramChanges :: "(string \<times> string) list"

text \<open>
  \<^verbatim>\<open>updateSortField\<close> sets the state in the reaction to the fulfilment of
  \<^verbatim>\<open>sortServices\<close>; it has no reaction to a rejection. \<open>Inl\<close> is an exception thrown by
  \<^verbatim>\<open>sortServices\<close> itself.
\<close>

definition updateSortField ::
  "nat list \<Rightarrow> 'q component \<Rightarrow> 'q SortField \<Rightarrow> reason + 'q component" where
  "updateSortField schedule c sortField =
     (case sortServices schedule (store c) (services (state c)) sortField
             (isSortAscending (state c)) of
        (Inl e, h) \<Rightarrow> Inl e
      | (Inr (Fulfilled sorted_arr), h) \<Rightarrow>
          Inr (c\<lparr>store := h,
                 state := (state c)\<lparr>currentSortField := sortField, services := sorted_arr\<rparr>,
                 paramChanges := paramChanges c @ [(''sort'', param sortField)]\<rparr>)
      | (Inr _, h) \<Rightarrow> Inr (c\<lparr>store := h\<rparr>))"

text \<open>
  The list part of \<^verbatim>\<open>render\<close>: one link per item of the page. Reading an element
  outside the array gives \<^verbatim>\<open>undefined\<close>, and its \<^verbatim>\<open>namespace\<close> is a \<^verbatim>\<open>TypeError\<close>.
\<close>

datatype 'q element = Link string string "'q ServiceItem"

function renderLoop ::
  "'q heap \<Rightarrow> ref list \<Rightarrow> int \<Rightarrow> int \<Rightarrow> 'q element list \<Rightarrow> reason + 'q element list" where
  "renderLoop h arr i pageEnd serviceList =
     (if i < pageEnd then
        (if 0 \<le> i \<and> i < int (length arr) then
           (let serviceItem = items h (arr ! nat i);
                to = ''/namespaces/'' @ namespace serviceItem @ ''/services/'' @ name serviceItem
            in renderLoop h arr (i + 1) pageEnd (serviceList @ [Link to to serviceItem]))
         else Inl TypeError)
      else Inr serviceList)"
  by pat_completeness auto
termination
  by (relation "measure (\<lambda>(h, arr, i, pageEnd, serviceList). nat (pageEnd - i))") auto

definition render :: "'q component \<Rightarrow> reason + 'q element list" where
  "render c =
     (let arr = arrays (store c) (services (state c));
          pageStart = (page (pagination (state c)) - 1) * perPage (pagination (state c));
          pageEnd = pageStart + perPage (pagination (state c));
          pageEnd = (if pageEnd < int (length arr) then pageEnd else int (length arr))
      in renderLoop (store c) arr pageStart pageEnd [])"

text \<open>
  The page as the pagination contract words it: \<open>slice xs start stop\<close> is
  \<^verbatim>\<open>xs[start:stop]\<close> for a start index that is not negative, and \<open>link_of\<close> is the
  link that stands for one item.
\<close>

definition slice :: "'a list \<Rightarrow> int \<Rightarrow> int \<Rightarrow> 'a list" where
  "slice xs start stop = take (nat (stop - start)) (drop (nat start) xs)"

definition link_of :: "'q heap \<Rightarrow> ref \<Rightarrow> 'q element" where
  "link_of h r =
     Link (''/namespaces/'' @ namespace (items h r) @ ''/services/'' @ name (items h r))
          (''/namespaces/'' @ namespace (items h r) @ ''/services/'' @ name (items h r))
          (items h r)"

subsection \<open>The persisted store\<close>

record PersistConfig =
  key :: string
  whitelist :: "string list"

definition persistConfig :: PersistConfig where
  "persistConfig =
     \<lparr>key = ''root'', whitelist = [''authentication'', ''statusState'', ''userSettings'']\<rparr>"

text \<open>
  The defaults of the slices come from the reducers, which are not part of the sources at
  hand: they are the fields of a record of parameters.
\<close>

record 'v defaults =
  INITIAL_GLOBAL_STATE :: 'v
  INITIAL_STATUS_STATE :: 'v
  INITIAL_NAMESPACE_STATE :: 'v
  INITIAL_LOGIN_STATE :: 'v
  INITIAL_MESSAGE_CENTER_STATE :: 'v
  INITIAL_GRAPH_STATE :: 'v
  INITIAL_USER_SETTINGS_STATE :: 'v

definition initialStore :: "'v defaults \<Rightarrow> (string \<times> 'v) list" where
  "initialStore d =
     [(''globalState'', INITIAL_GLOBAL_STATE d),
      (''statusState'', INITIAL_STATUS_STATE d),
      (''namespaces'', INITIAL_NAMESPACE_STATE d),
      (''authentication'', INITIAL_LOGIN_STATE d),
      (''messageCenter'', INITIAL_MESSAGE_CENTER_STATE d),
      (''graph'', INITIAL_GRAPH_STATE d),
      (''userSettings'', INITIAL_USER_SETTINGS_STATE d)]"

text \<open>
  Modelled from the spec: \<^verbatim>\<open>persistReducer\<close> and \<^verbatim>\<open>persistStore\<close> of the
  persistence library, which are not under \<^verbatim>\<open>src/\<close>. Persisting writes the whitelisted
  slices of the state to the storage. Rehydrating overlays, for each whitelisted slice
  present in the storage, the persisted value onto the default; every other slice keeps
  its default.
\<close>

definition persist :: "PersistConfig \<Rightarrow> (string \<times> 'v) list \<Rightarrow> (string \<times> 'v) list" where
  "persist config st = filter (\<lambda>(k, v). k \<in> set (whitelist config)) st"

definition rehydrate ::
  "PersistConfig \<Rightarrow> (string \<rightharpoonup> 'v) \<Rightarrow> (string \<times> 'v) list \<Rightarrow> (string \<times> 'v) list" where
  "rehydrate config storage st =
     map (\<lambda>(k, d).
            (k, if k \<in> set (whitelist config)
                then (case storage k of Some v \<Rightarrow> v | None \<Rightarrow> d) else d)) st"

text \<open>
  \<^verbatim>\<open>configureStore(initialStore)\<close> at the start of the process, with the storage as it
  is found.
\<close>

definition configureStore :: "(string \<rightharpoonup> 'v) \<Rightarrow> (string \<times> 'v) list \<Rightarrow> (string \<times> 'v) list" where
  "configureStore storage initialState = rehydrate persistConfig storage initialState"

subsection \<open>Sample data\<close>

text \<open>
  Four items of two namespaces, three arrays of them, and a component showing the first
  array.
  In the samples the request data of a health value is its error ratio itself, and the
  collation is \<open>codepoint_compare\<close>, the lexicographic order of the character codes.
\<close>

definition codepoint_compare :: "string \<Rightarrow> string \<Rightarrow> rat" where
  "codepoint_compare a b = (if a < b then - 1 else if a = b then 0 else 1)"

definition reviews :: "rat ServiceItem" where
  "reviews = \<lparr>name = ''reviews'', istioSidecar = True, namespace = ''bookinfo'',
     healthPromise = Fulfilled \<lparr>requests = 1 / 2\<rparr>, health = None\<rparr>"

definition details :: "rat ServiceItem" where
  "details = \<lparr>name = ''details'', istioSidecar = False, namespace = ''bookinfo'',
     healthPromise = Fulfilled \<lparr>requests = 0\<rparr>, health = None\<rparr>"

definition reviews_shop :: "rat ServiceItem" where
  "reviews_shop = \<lparr>name = ''reviews'', istioSidecar = True, namespace = ''shop'',
     healthPromise = Rejected (HealthError ''timeout''), health = None\<rparr>"

definition ratings :: "rat ServiceItem" where
  "ratings = \<lparr>name = ''ratings'', istioSidecar = False, namespace = ''shop'',
     healthPromise = Rejected (HealthError ''refused''), health = None\<rparr>"

definition sample_heap :: "rat heap" where
  "sample_heap =
     \<lparr>items = (\<lambda>r. if r = 0 then reviews else if r = 1 then details
                   else if r = 2 then reviews_shop else ratings),
      arrays = (\<lambda>r. if r = 0 then [0, 1, 2] else if r = 1 then [0, 1]
                    else if r = 2 then [0, 2, 3] else []),
      next_array = 3\<rparr>"

definition sample_component :: "rat component" where
  "sample_component =
     \<lparr>store = sample_heap,
      state = \<lparr>services = 0,
               pagination = \<lparr>page = 2, perPage = 2, perPageOptions = [2, 5, 10]\<rparr>,
               currentSortField = sortFields codepoint_compare (\<lambda>q. q) ! 0,
               isSortAscending = True,
               rateInterval = 600\<rparr>,
      paramChanges = []\<rparr>"

text \<open>
  The same component showing the third array, in which two health promises are rejected.
\<close>

definition shop_component :: "rat component" where
  "shop_component = sample_component\<lparr>state := (state sample_component)\<lparr>services := 2\<rparr>\<rparr>"

section \<open>Properties\<close>

subsection \<open>Filters\<close>

lemma str_includes_sublist: "str_includes s t \<longleftrightarrow> sublist t s"
  by (induction s) (auto simp: sublist_Cons_right)

lemma serviceNameLoop_ex: "serviceNameLoop n fs \<longleftrightarrow> list_ex (\<lambda>f. sublist f n) fs"
  by (induction fs) (auto simp: str_includes_sublist)

lemma indexOf_ge: "indexOf xs v \<ge> - 1"
  by (induction xs) (auto simp: Let_def)

lemma indexOf_first:
  "indexOf xs v = int i \<longleftrightarrow> i < length xs \<and> xs ! i = v \<and> v \<notin> set (take i xs)"
proof (induction xs arbitrary: i)
  case Nil
  then show ?case by simp
next
  case (Cons x xs)
  show ?case
  proof (cases i)
    case 0
    then show ?thesis using indexOf_ge[of xs v] by (auto simp: Let_def)
  next
    case (Suc j)
    then show ?thesis using Cons.IH[of j] indexOf_ge[of xs v] by (auto simp: Let_def)
  qed
qed

lemma zip_upt_nth: "zip xs [0 ..< length xs] = map (\<lambda>i. (xs ! i, i)) [0 ..< length xs]"
proof -
  have "zip xs [0 ..< length xs] = zip (map (\<lambda>i. xs ! i) [0 ..< length xs]) [0 ..< length xs]"
    by (simp add: map_nth)
  also have "\<dots> = map (\<lambda>i. (xs ! i, i)) [0 ..< length xs]"
    by (simp add: zip_map1 zip_same_conv_map)
  finally show ?thesis .
qed

lemma filter_indexed_nth:
  "filter_indexed P xs = map (\<lambda>i. xs ! i) (filter (\<lambda>i. P (xs ! i) i) [0 ..< length xs])"
  by (simp add: filter_indexed_def zip_upt_nth filter_map comp_def)

lemma set_firsts: "set (firsts xs) = set xs"
proof -
  let ?I = "filter (\<lambda>i. indexOf xs (xs ! i) = int i) [0 ..< length xs]"
  have f: "firsts xs = map (\<lambda>i. xs ! i) ?I"
    unfolding firsts_def by (rule filter_indexed_nth)
  have "x \<in> set xs" if "x \<in> set (firsts xs)" for x
  proof -
    from that obtain i where "i \<in> set ?I" "x = xs ! i" unfolding f by auto
    then show ?thesis by simp
  qed
  moreover have "x \<in> set (firsts xs)" if "x \<in> set xs" for x
  proof -
    from that obtain ys zs where d: "xs = ys @ x # zs" "x \<notin> set ys"
      using in_set_conv_decomp_first[of x xs] by blast
    define i where "i = length ys"
    have i: "i < length xs" "xs ! i = x" "x \<notin> set (take i xs)"
      using d by (simp_all add: i_def)
    then have "indexOf xs (xs ! i) = int i" by (simp add: indexOf_first)
    with i(1) have "i \<in> set ?I" by simp
    then have "xs ! i \<in> set (map (\<lambda>i. xs ! i) ?I)" by (simp only: set_map imageI)
    with i(2) show ?thesis unfolding f by simp
  qed
  ultimately show ?thesis by blast
qed

lemma nth_in_take: "i < j \<Longrightarrow> j \<le> length xs \<Longrightarrow> xs ! i \<in> set (take j xs)"
  by (metis in_set_conv_nth length_take min.absorb2 nth_take)

lemma distinct_firsts: "distinct (firsts xs)"
proof -
  have "inj_on (\<lambda>i. xs ! i) {i. i < length xs \<and> xs ! i \<notin> set (take i xs)}"
  proof (rule inj_onI)
    fix i j
    assume a: "i \<in> {i. i < length xs \<and> xs ! i \<notin> set (take i xs)}"
      "j \<in> {i. i < length xs \<and> xs ! i \<notin> set (take i xs)}" "xs ! i = xs ! j"
    show "i = j"
    proof (rule ccontr)
      assume "i \<noteq> j"
      then consider "i < j" | "j < i" by linarith
      then show False
      proof cases
        case 1
        then have "xs ! i \<in> set (take j xs)" using a(2) nth_in_take[of i j xs] by simp
        then have "xs ! j \<in> set (take j xs)" using a(3) by metis
        with a(2) show False by blast
      next
        case 2
        then have "xs ! j \<in> set (take i xs)" using a(1) nth_in_take[of j i xs] by simp
        then have "xs ! i \<in> set (take i xs)" using a(3) by metis
        with a(1) show False by blast
      qed
    qed
  qed
  moreover have "set (filter (\<lambda>i. indexOf xs (xs ! i) = int i) [0 ..< length xs])
      = {i. i < length xs \<and> xs ! i \<notin> set (take i xs)}"
    by (auto simp: indexOf_first)
  ultimately show ?thesis
    unfolding firsts_def filter_indexed_nth by (simp add: distinct_map)
qed

lemma cleanIstioFilters_firsts:
  "cleanIstioFilters xs = (if length (firsts xs) = 2 then [] else firsts xs)"
proof (cases xs)
  case Nil
  then show ?thesis by (simp add: cleanIstioFilters_def firsts_def filter_indexed_def)
next
  case (Cons y ys)
  then have "length xs \<noteq> 0" by simp
  then show ?thesis unfolding cleanIstioFilters_def firsts_def Let_def by (simp only: if_False)
qed

lemma length_firsts: "length (firsts xs) = card (set xs)"
  by (metis distinct_card distinct_firsts set_firsts)

lemma card_both: "card {''Present'', ''Not Present''} = 2"
  by simp

text \<open>
  Claim C6. Whatever list of sidecar filter values arrives (de-duplicated before or not),
  \<^verbatim>\<open>cleanIstioFilters\<close> returns the empty list when the values selected are exactly
  \<open>Present\<close> and \<open>Not Present\<close>, and the one-element list of a value when that value is
  the only one selected, however often it is repeated.
\<close>

theorem cleanIstioFilters_collapse:
  "(set istioFilters = {''Present'', ''Not Present''} \<longrightarrow> cleanIstioFilters istioFilters = []) \<and>
   (set istioFilters = {v} \<longrightarrow> cleanIstioFilters istioFilters = [v])"
proof (intro conjI impI)
  assume "set istioFilters = {''Present'', ''Not Present''}"
  then have "length (firsts istioFilters) = 2" using card_both by (simp only: length_firsts)
  then show "cleanIstioFilters istioFilters = []" by (simp add: cleanIstioFilters_firsts)
next
  assume s: "set istioFilters = {v}"
  then have l: "length (firsts istioFilters) = 1" by (simp add: length_firsts)
  then obtain w where w: "firsts istioFilters = [w]"
    by (cases "firsts istioFilters") auto
  have "set (firsts istioFilters) = {v}" using s by (simp only: set_firsts)
  with w have "firsts istioFilters = [v]" by simp
  then show "cleanIstioFilters istioFilters = [v]" by (simp add: cleanIstioFilters_firsts)
qed

theorem cleanIstioFilters_collapse_witness:
  "cleanIstioFilters [''Present'', ''Not Present'', ''Present''] = [] \<and>
   cleanIstioFilters [''Not Present'', ''Not Present''] = [''Not Present'']"
proof -
  have a: "set [''Present'', ''Not Present'', ''Present''] = {''Present'', ''Not Present''}"
    by auto
  have b: "set [''Not Present'', ''Not Present''] = {''Not Present''}"
    by simp
  show ?thesis
    using cleanIstioFilters_collapse[of "[''Present'', ''Not Present'', ''Present'']" "''x''"]
      cleanIstioFilters_collapse[of "[''Not Present'', ''Not Present'']" "''Not Present''"] a b
    by blast
qed

lemma isFiltered_name_part:
  "(if length fs > 0 then serviceNameLoop n fs else True) = passesCategory (\<lambda>f. sublist f n) fs"
  by (cases fs) (simp_all add: passesCategory_def serviceNameLoop_ex)

lemma enum_lists:
  assumes "distinct fs" "set fs \<subseteq> {''Present'', ''Not Present''}"
  shows "fs = [] \<or> fs = [''Present''] \<or> fs = [''Not Present''] \<or>
         fs = [''Present'', ''Not Present''] \<or> fs = [''Not Present'', ''Present'']"
proof (cases fs)
  case Nil then show ?thesis by simp
next
  case (Cons a as)
  note c1 = Cons
  show ?thesis
  proof (cases as)
    case Nil
    with c1 assms show ?thesis by auto
  next
    case (Cons b bs)
    note c2 = Cons
    have "bs = []"
    proof (cases bs)
      case Nil then show ?thesis .
    next
      case (Cons c cs)
      with c1 c2 assms show ?thesis by auto
    qed
    with c1 c2 assms show ?thesis by auto
  qed
qed

text \<open>
  Claim C4. The sidecar filter is a select with the two values \<open>Present\<close> and
  \<open>Not Present\<close>. For every service, every list of name filters and every de-duplicated
  list of sidecar filters, \<^verbatim>\<open>isFiltered\<close> is the contract: the service passes exactly
  when each category with a filter has a filter that matches, by containment for names and
  by equality with the label of the sidecar flag for sidecar filters; a category with no
  filter does not constrain.
\<close>

theorem isFiltered_or_and:
  assumes "distinct istioFilters" and "set istioFilters \<subseteq> {''Present'', ''Not Present''}"
  shows "isFiltered service servicenameFilters istioFilters
         = passesFilters service servicenameFilters istioFilters"
proof -
  have n: "isFiltered service servicenameFilters istioFilters =
      (passesCategory (\<lambda>f. sublist f (name service)) servicenameFilters \<and>
       (case istioFilters of
               [f] \<Rightarrow>
                 (let r = (if f = ''Present'' then istioSidecar service else True)
                  in if f = ''Not Present'' then \<not> istioSidecar service else r)
             | _ \<Rightarrow> True))"
    unfolding isFiltered_def Let_def isFiltered_name_part by (rule refl)
  from enum_lists[OF assms] show ?thesis
    unfolding n passesFilters_def
    by (elim disjE) (simp_all add: passesCategory_def sidecarLabel_def)
qed

theorem isFiltered_or_and_witness:
  "distinct [''Not Present''] \<and> set [''Not Present''] \<subseteq> {''Present'', ''Not Present''} \<and>
   isFiltered \<lparr>name = ''reviews'', istioSidecar = False\<rparr> [''view'', ''tail''] [''Not Present''] \<and>
   passesFilters \<lparr>name = ''reviews'', istioSidecar = False\<rparr> [''view'', ''tail''] [''Not Present'']"
proof -
  have d: "distinct [''Not Present'']" by simp
  have e: "set [''Not Present''] \<subseteq> {''Present'', ''Not Present''}" by simp
  have "isFiltered \<lparr>name = ''reviews'', istioSidecar = False\<rparr> [''view'', ''tail''] [''Not Present'']"
    by (simp add: isFiltered_def prefix_code)
  with d e isFiltered_or_and[OF d e, of "\<lparr>name = ''reviews'', istioSidecar = False\<rparr>" "[''view'', ''tail'']"]
  show ?thesis by blast
qed

lemma isFiltered_no_filters: "isFiltered service [] []"
  by (simp add: isFiltered_def)

lemma filterServices_filter:
  "filterServices sn is xs = filter (\<lambda>service. isFiltered service sn is) xs"
  by (simp add: filterServices_def isFiltered_no_filters)

text \<open>
  Claim C7. Filtering a filtered list again changes nothing; the filtered list is a
  subsequence of the list it was made from (the services that pass, in their order); and it
  is a new list made by \<^verbatim>\<open>filter\<close> from the one given, which is only read.
\<close>

theorem filterServices_idempotent:
  "filterServices sn is (filterServices sn is xs) = filterServices sn is xs \<and>
   subseq (filterServices sn is xs) xs \<and>
   filterServices sn is xs = filter (\<lambda>service. isFiltered service sn is) xs"
  by (simp add: filterServices_filter)

subsection \<open>Sorting with a consistent comparator\<close>

lemma insert_by_total:
  assumes "\<forall>y\<in>set ys. \<exists>c. cmp x y = Inr c"
  shows "\<exists>zs. insert_by cmp x ys = Inr zs \<and> mset zs = add_mset x (mset ys)"
  using assms
proof (induction ys)
  case Nil
  then show ?case by simp
next
  case (Cons y ys)
  then obtain c where c: "cmp x y = Inr c" by auto
  from Cons obtain zs where zs: "insert_by cmp x ys = Inr zs" "mset zs = add_mset x (mset ys)"
    by auto
  show ?case using c zs by simp
qed

lemma array_sort_total:
  assumes "\<forall>a\<in>set xs. \<forall>b\<in>set xs. \<exists>c. cmp a b = Inr c"
  shows "\<exists>ys. array_sort cmp xs = Inr ys \<and> mset ys = mset xs"
  using assms
proof (induction xs)
  case Nil
  then show ?case by simp
next
  case (Cons x xs)
  then obtain ys where ys: "array_sort cmp xs = Inr ys" "mset ys = mset xs" by auto
  then have "set ys = set xs" by (metis set_mset_mset)
  with Cons.prems have "\<forall>y\<in>set ys. \<exists>c. cmp x y = Inr c" by simp
  from insert_by_total[where cmp=cmp and x=x and ys=ys, OF this] ys show ?case by auto
qed

lemma consistent_on_total:
  "consistent_on S cmp \<Longrightarrow> a \<in> S \<Longrightarrow> b \<in> S \<Longrightarrow> \<exists>c. cmp a b = Inr c"
  unfolding consistent_on_def by blast

lemma consistent_on_flip:
  assumes "consistent_on S cmp" "a \<in> S" "b \<in> S" "cmp a b = Inr c" "\<not> c \<le> 0"
  shows "precedes cmp b a"
proof -
  from assms(1-3) obtain x y where xy: "cmp a b = Inr x" "cmp b a = Inr y" "sgn y = - sgn x"
    unfolding consistent_on_def by blast
  with assms(4,5) have "0 < x" by simp
  then have "sgn y = - 1" using xy by simp
  then have "y < 0" by (simp add: sgn_if split: if_splits)
  then show ?thesis using xy by (simp add: precedes_def)
qed

lemma consistent_on_trans:
  "consistent_on S cmp \<Longrightarrow> a \<in> S \<Longrightarrow> b \<in> S \<Longrightarrow> c \<in> S \<Longrightarrow>
   precedes cmp a b \<Longrightarrow> precedes cmp b c \<Longrightarrow> precedes cmp a c"
  unfolding consistent_on_def by blast

lemma insert_by_sorted:
  assumes "consistent_on S cmp" "x \<in> S" "set ys \<subseteq> S" "sorted_wrt (precedes cmp) ys"
    "insert_by cmp x ys = Inr zs"
  shows "sorted_wrt (precedes cmp) zs"
  using assms(3-5)
proof (induction ys arbitrary: zs)
  case Nil
  then show ?case by auto
next
  case (Cons y ys)
  from consistent_on_total[OF assms(1,2), of y] Cons.prems obtain c where c: "cmp x y = Inr c"
    by auto
  show ?case
  proof (cases "c \<le> 0")
    case True
    then have zs: "zs = x # y # ys" using Cons.prems c by simp
    have xy: "precedes cmp x y" using c True by (simp add: precedes_def)
    have "precedes cmp x z" if "z \<in> set ys" for z
    proof -
      have "precedes cmp y z" using Cons.prems(2) that by simp
      then show ?thesis
        using consistent_on_trans[OF assms(1,2), of y z] Cons.prems(1) that xy by auto
    qed
    then show ?thesis using zs xy Cons.prems(2) by auto
  next
    case False
    then obtain ws where ws: "insert_by cmp x ys = Inr ws" "zs = y # ws"
      using Cons.prems c by (auto split: sum.splits)
    have sw: "sorted_wrt (precedes cmp) ws"
      using Cons.IH[OF _ _ ws(1)] Cons.prems by simp
    have "\<forall>y\<in>set ys. \<exists>c. cmp x y = Inr c"
      using consistent_on_total[OF assms(1,2)] Cons.prems(1) by auto
    from insert_by_total[where cmp=cmp and x=x and ys=ys, OF this] ws have "mset ws = add_mset x (mset ys)" by auto
    then have "set ws = insert x (set ys)" by (metis set_mset_add_mset_insert set_mset_mset)
    moreover have "precedes cmp y x"
      using consistent_on_flip[OF assms(1,2) _ c False] Cons.prems(1) by simp
    ultimately show ?thesis using ws sw Cons.prems(2) by auto
  qed
qed

lemma array_sort_sorted:
  assumes "consistent_on S cmp" "set xs \<subseteq> S"
  shows "\<exists>ys. array_sort cmp xs = Inr ys \<and> mset ys = mset xs \<and> sorted_wrt (precedes cmp) ys"
  using assms(2)
proof (induction xs)
  case Nil
  then show ?case by simp
next
  case (Cons x xs)
  then obtain ys where ys: "array_sort cmp xs = Inr ys" "mset ys = mset xs"
    "sorted_wrt (precedes cmp) ys" by auto
  then have s: "set ys = set xs" by (metis set_mset_mset)
  have "\<forall>y\<in>set ys. \<exists>c. cmp x y = Inr c"
    using consistent_on_total[OF assms(1)] Cons.prems s by auto
  from insert_by_total[where cmp=cmp and x=x and ys=ys, OF this] obtain zs where
    zs: "insert_by cmp x ys = Inr zs" "mset zs = add_mset x (mset ys)" by auto
  have "sorted_wrt (precedes cmp) zs"
    using insert_by_sorted[OF assms(1) _ _ ys(3) zs(1)] Cons.prems s by simp
  then show ?case using ys zs by simp
qed

subsection \<open>The comparators of the sort fields\<close>

lemma consistent_comparison_facts:
  assumes "consistent_comparison p"
  shows "p a b = 0 \<longleftrightarrow> p a b \<le> 0 \<and> p b a \<le> 0"
    and "p a b < 0 \<longleftrightarrow> \<not> p b a \<le> 0"
    and "p a b \<le> 0 \<Longrightarrow> p b c \<le> 0 \<Longrightarrow> p a c \<le> 0"
    and "p a b \<le> 0 \<or> p b a \<le> 0"
proof -
  have s: "sgn (p b a) = - sgn (p a b)"
    using assms unfolding consistent_comparison_def by blast
  show "p a b = 0 \<longleftrightarrow> p a b \<le> 0 \<and> p b a \<le> 0"
    using s by (auto simp: sgn_if split: if_splits)
  show "p a b < 0 \<longleftrightarrow> \<not> p b a \<le> 0"
    using s by (auto simp: sgn_if split: if_splits)
  show "p a b \<le> 0 \<or> p b a \<le> 0"
    using s by (auto simp: sgn_if split: if_splits)
  show "p a b \<le> 0 \<Longrightarrow> p b c \<le> 0 \<Longrightarrow> p a c \<le> 0"
    using assms unfolding consistent_comparison_def by blast
qed

lemma consistent_comparison_lex:
  assumes p: "consistent_comparison p" and s: "consistent_comparison s"
  shows "consistent_comparison (\<lambda>a b. if p a b = 0 then s a b else p a b)"
proof -
  let ?g = "\<lambda>a b. if p a b = 0 then s a b else p a b"
  have le: "?g a b \<le> 0 \<longleftrightarrow> \<not> p b a \<le> 0 \<or> (p a b \<le> 0 \<and> p b a \<le> 0 \<and> s a b \<le> 0)" for a b
  proof (cases "p a b = 0")
    case True
    then have "p a b \<le> 0" "p b a \<le> 0" using consistent_comparison_facts(1)[OF p, of a b] by simp_all
    with True show ?thesis by simp
  next
    case False
    note f = consistent_comparison_facts(2)[OF p, of a b]
    show ?thesis
    proof (cases "p a b < 0")
      case True
      with False f show ?thesis by simp
    next
      case False
      with \<open>p a b \<noteq> 0\<close> f show ?thesis by simp
    qed
  qed
  have sg: "sgn (?g b a) = - sgn (?g a b)" for a b
  proof (cases "p a b = 0")
    case True
    then have "p b a = 0" using consistent_comparison_facts(1)[OF p] by blast
    moreover have "sgn (s b a) = - sgn (s a b)"
      using s unfolding consistent_comparison_def by blast
    ultimately show ?thesis using True by simp
  next
    case False
    then have "p b a \<noteq> 0" using consistent_comparison_facts(1)[OF p] by blast
    moreover have "sgn (p b a) = - sgn (p a b)"
      using p unfolding consistent_comparison_def by blast
    ultimately show ?thesis using False by simp
  qed
  have tr: "?g a c \<le> 0" if "?g a b \<le> 0" "?g b c \<le> 0" for a b c
  proof -
    note pt = consistent_comparison_facts(3)[OF p]
    from that have ab: "\<not> p b a \<le> 0 \<or> (p a b \<le> 0 \<and> p b a \<le> 0 \<and> s a b \<le> 0)"
      and bc: "\<not> p c b \<le> 0 \<or> (p b c \<le> 0 \<and> p c b \<le> 0 \<and> s b c \<le> 0)"
      unfolding le by blast+
    have pab: "p a b \<le> 0" using ab consistent_comparison_facts(4)[OF p, of a b] by blast
    have pbc: "p b c \<le> 0" using bc consistent_comparison_facts(4)[OF p, of b c] by blast
    have pac: "p a c \<le> 0" using pt[OF pab pbc] .
    show ?thesis
    proof (cases "p c a \<le> 0")
      case False
      then show ?thesis unfolding le by blast
    next
      case True
      have "p c b \<le> 0" using pt[OF True pab] .
      with bc have sbc: "s b c \<le> 0" by blast
      have "p b a \<le> 0" using pt[OF pbc True] .
      with ab have sab: "s a b \<le> 0" by blast
      have "s a c \<le> 0" using consistent_comparison_facts(3)[OF s sab sbc] .
      with pac True show ?thesis unfolding le by blast
    qed
  qed
  show ?thesis
    unfolding consistent_comparison_def using sg tr by blast
qed

lemma consistent_comparison_on:
  "consistent_comparison cmp \<Longrightarrow> consistent_comparison (\<lambda>a b. cmp (k a) (k b))"
  unfolding consistent_comparison_def by blast

lemma consistent_comparison_sidecar:
  "consistent_comparison (\<lambda>a b. if (x a::bool) \<and> \<not> x b then - 1 else if \<not> x a \<and> x b then 1 else (0::rat))"
  unfolding consistent_comparison_def by auto

lemma consistent_comparison_diff:
  "consistent_comparison (\<lambda>a b. (r a :: rat) - r b)"
  unfolding consistent_comparison_def by (auto simp: sgn_if)

lemma consistent_onI:
  assumes "consistent_comparison g" "\<And>a b. a \<in> S \<Longrightarrow> b \<in> S \<Longrightarrow> cmp a b = Inr (g a b)"
  shows "consistent_on S cmp"
proof -
  have p: "precedes cmp a b \<longleftrightarrow> g a b \<le> 0" if "a \<in> S" "b \<in> S" for a b
    using assms(2)[OF that] by (simp add: precedes_def)
  have "\<exists>x y. cmp a b = Inr x \<and> cmp b a = Inr y \<and> sgn y = - sgn x" if "a \<in> S" "b \<in> S" for a b
  proof -
    have "sgn (g b a) = - sgn (g a b)"
      using assms(1) unfolding consistent_comparison_def by blast
    with assms(2)[OF that] assms(2)[OF that(2,1)] show ?thesis by blast
  qed
  moreover have "precedes cmp a c"
    if "a \<in> S" "b \<in> S" "c \<in> S" "precedes cmp a b" "precedes cmp b c" for a b c
    using that p consistent_comparison_facts(3)[OF assms(1), of a b c] by simp
  ultimately show ?thesis unfolding consistent_on_def by blast
qed

lemma consistent_compareServiceName:
  assumes "consistent_comparison localeCompare"
  shows "consistent_on S (compareServiceName localeCompare)"
  by (rule consistent_onI[OF consistent_comparison_on[OF assms, of name]])
    (simp add: compareServiceName_def)

lemma consistent_compareNamespace:
  assumes "consistent_comparison localeCompare"
  shows "consistent_on S (compareNamespace localeCompare)"
  by (rule consistent_onI[OF consistent_comparison_lex[OF
        consistent_comparison_on[OF assms, of namespace] consistent_comparison_on[OF assms, of name]]])
    (simp add: compareNamespace_def Let_def)

lemma consistent_compareIstioSidecar:
  assumes "consistent_comparison localeCompare"
  shows "consistent_on S (compareIstioSidecar localeCompare)"
  by (rule consistent_onI[OF consistent_comparison_lex[OF
        consistent_comparison_sidecar[of istioSidecar] consistent_comparison_on[OF assms, of name]]])
    (auto simp: compareIstioSidecar_def)

lemma consistent_compareErrorRate:
  assumes "consistent_comparison localeCompare"
  shows "consistent_on {a. health a \<noteq> None} (compareErrorRate localeCompare errorsRatio)"
  by (rule consistent_onI[OF consistent_comparison_lex[OF
        consistent_comparison_diff[of "\<lambda>a. errorsRatio (requests (the (health a)))"]
        consistent_comparison_on[OF assms, of name]]])
    (auto simp: compareErrorRate_def Let_def)

lemma consistent_codepoint_compare: "consistent_comparison codepoint_compare"
  unfolding consistent_comparison_def codepoint_compare_def by auto

lemma consistent_on_subset: "consistent_on S cmp \<Longrightarrow> T \<subseteq> S \<Longrightarrow> consistent_on T cmp"
  unfolding consistent_on_def by blast

lemma consistent_on_direction:
  assumes "consistent_on S cmp"
  shows "consistent_on S (direction isAscending cmp)"
proof (cases isAscending)
  case True
  then show ?thesis using assms by (simp add: direction_def)
next
  case False
  have p: "precedes (\<lambda>a b. cmp b a) a b = precedes cmp b a" for a b
    by (simp add: precedes_def)
  have "consistent_on S (\<lambda>a b. cmp b a)"
    unfolding consistent_on_def p
  proof (intro conjI ballI impI)
    fix a b assume "a \<in> S" "b \<in> S"
    with assms show "\<exists>x y. cmp b a = Inr x \<and> cmp a b = Inr y \<and> sgn y = - sgn x"
      unfolding consistent_on_def by blast
  next
    fix a b c assume "a \<in> S" "b \<in> S" "c \<in> S" "precedes cmp b a \<and> precedes cmp c b"
    with consistent_on_trans[OF assms, of c b a] show "precedes cmp c a" by blast
  qed
  with False show ?thesis by (simp add: direction_def)
qed

lemma consistent_on_items:
  assumes "consistent_on S cmp"
  shows "consistent_on {r. items h r \<in> S} (on_items h cmp)"
proof -
  have p: "precedes (on_items h cmp) a b = precedes cmp (items h a) (items h b)" for a b
    by (simp add: precedes_def on_items_def)
  show ?thesis
    unfolding consistent_on_def p
  proof (intro conjI ballI impI)
    fix a b assume "a \<in> {r. items h r \<in> S}" "b \<in> {r. items h r \<in> S}"
    with assms show "\<exists>x y. on_items h cmp a b = Inr x \<and> on_items h cmp b a = Inr y \<and> sgn y = - sgn x"
      unfolding consistent_on_def on_items_def by blast
  next
    fix a b c
    assume "a \<in> {r. items h r \<in> S}" "b \<in> {r. items h r \<in> S}" "c \<in> {r. items h r \<in> S}"
      "precedes cmp (items h a) (items h b) \<and> precedes cmp (items h b) (items h c)"
    with consistent_on_trans[OF assms, of "items h a" "items h b" "items h c"]
    show "precedes cmp (items h a) (items h c)" by blast
  qed
qed

lemma precedes_on_items_direction:
  "precedes (on_items h (direction isAscending cmp)) a b =
     (if isAscending then precedes cmp (items h a) (items h b)
      else precedes cmp (items h b) (items h a))"
  by (simp add: precedes_def on_items_def direction_def)

lemma sortFields_cases:
  assumes "f \<in> set (sortFields localeCompare errorsRatio)"
  obtains "title f = ''Namespace''" "compare f = compareNamespace localeCompare"
  | "title f = ''Service Name''" "compare f = compareServiceName localeCompare"
  | "title f = ''Istio Sidecar''" "compare f = compareIstioSidecar localeCompare"
  | "title f = ''Error Rate''" "compare f = compareErrorRate localeCompare errorsRatio"
  using assms unfolding sortFields_def by auto

lemma sortFields_sync_total:
  assumes "f \<in> set (sortFields localeCompare errorsRatio)" "title f \<noteq> ''Error Rate''"
  shows "\<exists>c. compare f a b = Inr c"
  using assms(1)
proof (cases rule: sortFields_cases)
  case 1 then show ?thesis by (simp add: compareNamespace_def Let_def)
next
  case 2 then show ?thesis by (simp add: compareServiceName_def)
next
  case 3 then show ?thesis by (simp add: compareIstioSidecar_def)
next
  case 4 with assms(2) show ?thesis by simp
qed

lemma sortFields_consistent_sync:
  assumes "consistent_comparison localeCompare"
    "f \<in> set (sortFields localeCompare errorsRatio)" "title f \<noteq> ''Error Rate''"
  shows "consistent_on S (compare f)"
  using assms(2)
proof (cases rule: sortFields_cases)
  case 1 then show ?thesis by (simp add: consistent_compareNamespace[OF assms(1)])
next
  case 2 then show ?thesis by (simp add: consistent_compareServiceName[OF assms(1)])
next
  case 3 then show ?thesis by (simp add: consistent_compareIstioSidecar[OF assms(1)])
next
  case 4 with assms(3) show ?thesis by simp
qed

lemma sortFields_consistent_health:
  assumes "consistent_comparison localeCompare"
    "f \<in> set (sortFields localeCompare errorsRatio)"
  shows "consistent_on {a. health a \<noteq> None} (compare f)"
  using assms(2)
proof (cases rule: sortFields_cases)
  case 1 then show ?thesis by (simp add: consistent_compareNamespace[OF assms(1)])
next
  case 2 then show ?thesis by (simp add: consistent_compareServiceName[OF assms(1)])
next
  case 3 then show ?thesis by (simp add: consistent_compareIstioSidecar[OF assms(1)])
next
  case 4 then show ?thesis
    using consistent_compareErrorRate[OF assms(1), of errorsRatio] by simp
qed

lemma sync_sort:
  assumes "consistent_comparison localeCompare"
    "f \<in> set (sortFields localeCompare errorsRatio)" "title f \<noteq> ''Error Rate''"
  shows "\<exists>ys. array_sort (on_items h (direction isAscending (compare f))) xs = Inr ys \<and>
     mset ys = mset xs \<and>
     sorted_wrt (precedes (on_items h (direction isAscending (compare f)))) ys"
proof -
  have "consistent_on UNIV (direction isAscending (compare f))"
    by (rule consistent_on_direction) (rule sortFields_consistent_sync[OF assms])
  from consistent_on_items[OF this, of h]
  have "consistent_on UNIV (on_items h (direction isAscending (compare f)))" by simp
  from array_sort_sorted[OF this, of xs] show ?thesis by simp
qed

lemma sync_sort_total:
  assumes "f \<in> set (sortFields localeCompare errorsRatio)" "title f \<noteq> ''Error Rate''"
  shows "\<exists>ys. array_sort (on_items h (direction isAscending (compare f))) xs = Inr ys"
proof -
  have "\<exists>c. on_items h (direction isAscending (compare f)) a b = Inr c" for a b
    using sortFields_sync_total[OF assms] by (simp add: on_items_def direction_def)
  then have "\<forall>a\<in>set xs. \<forall>b\<in>set xs. \<exists>c. on_items h (direction isAscending (compare f)) a b = Inr c"
    by blast
  from array_sort_total[where cmp = "on_items h (direction isAscending (compare f))", OF this]
  show ?thesis by blast
qed

lemma sample_sort_by_name:
  "array_sort (on_items sample_heap (direction True
       (compare (sortFields codepoint_compare (\<lambda>q. q) ! 1)))) [0, 1, 2] = Inr [1, 0, 2]"
  "array_sort (on_items sample_heap (direction False
       (compare (sortFields codepoint_compare (\<lambda>q. q) ! 1)))) [0, 1, 2] = Inr [0, 2, 1]"
  by (simp_all add: sortFields_def on_items_def direction_def compareServiceName_def
      codepoint_compare_def sample_heap_def reviews_def details_def reviews_shop_def)

lemma sample_field_sync:
  "sortFields codepoint_compare (\<lambda>q::rat. q) ! 1 \<in> set (sortFields codepoint_compare (\<lambda>q. q)) \<and>
   title (sortFields codepoint_compare (\<lambda>q::rat. q) ! 1) \<noteq> ''Error Rate''"
  by (simp add: sortFields_def)

lemma sample_sortServices_by_name:
  "sortServices schedule sample_heap 0 (sortFields codepoint_compare (\<lambda>q. q) ! 1) True =
     (Inr (Fulfilled 0), sample_heap\<lparr>arrays := (arrays sample_heap)(0 := [1, 0, 2])\<rparr>)"
  "sortServices schedule sample_heap 0 (sortFields codepoint_compare (\<lambda>q. q) ! 1) False =
     (Inr (Fulfilled 0), sample_heap\<lparr>arrays := (arrays sample_heap)(0 := [0, 2, 1])\<rparr>)"
proof -
  have t: "(title (sortFields codepoint_compare (\<lambda>q::rat. q) ! 1) = ''Error Rate'') = False"
    using sample_field_sync by simp
  have a: "arrays sample_heap 0 = [0, 1, 2]" by (simp add: sample_heap_def)
  show "sortServices schedule sample_heap 0 (sortFields codepoint_compare (\<lambda>q. q) ! 1) True =
     (Inr (Fulfilled 0), sample_heap\<lparr>arrays := (arrays sample_heap)(0 := [1, 0, 2])\<rparr>)"
    unfolding sortServices_def
    by (simp only: t if_False a sample_sort_by_name sum.case)
  show "sortServices schedule sample_heap 0 (sortFields codepoint_compare (\<lambda>q. q) ! 1) False =
     (Inr (Fulfilled 0), sample_heap\<lparr>arrays := (arrays sample_heap)(0 := [0, 2, 1])\<rparr>)"
    unfolding sortServices_def
    by (simp only: t if_False a sample_sort_by_name sum.case)
qed

text \<open>
  Claim C5, as amended. For every consistent collation, every comparator of
  \<^verbatim>\<open>sortFields\<close> is a consistent ordering of service items (the one of the error rate on
  items that carry a health): it returns a number for every two items, \<open>compare b a\<close> has
  the opposite sign of \<open>compare a b\<close>, and the order is transitive. It is a total
  preorder and not a strict order: services of the same name tie under the comparator of
  the service name. When the namespaces, the sidecar flags or the error ratios of two
  items tie, the comparator returns \<open>localeCompare\<close> of their names; the comparator of the
  service name is that comparison itself.
\<close>

theorem sortFields_consistent:
  assumes "consistent_comparison localeCompare"
  shows
  "(\<forall>f\<in>set (sortFields localeCompare errorsRatio).
      consistent_on {a. health a \<noteq> None} (compare f)) \<and>
   (\<forall>f\<in>set (sortFields localeCompare errorsRatio).
      title f \<noteq> ''Error Rate'' \<longrightarrow> consistent_on UNIV (compare f)) \<and>
   (localeCompare (namespace a) (namespace b) = 0 \<longrightarrow>
      compare (sortFields localeCompare errorsRatio ! 0) a b
        = Inr (localeCompare (name a) (name b))) \<and>
   compare (sortFields localeCompare errorsRatio ! 1) a b = Inr (localeCompare (name a) (name b)) \<and>
   (istioSidecar a = istioSidecar b \<longrightarrow>
      compare (sortFields localeCompare errorsRatio ! 2) a b
        = Inr (localeCompare (name a) (name b))) \<and>
   (health a = Some healthA \<and> health b = Some healthB \<and>
    errorsRatio (requests healthA) = errorsRatio (requests healthB) \<longrightarrow>
      compare (sortFields localeCompare errorsRatio ! 3) a b
        = Inr (localeCompare (name a) (name b))) \<and>
   (name a = name b \<longrightarrow> compare (sortFields localeCompare errorsRatio ! 1) a b = Inr 0)"
proof (intro conjI)
  show "\<forall>f\<in>set (sortFields localeCompare errorsRatio).
      consistent_on {a. health a \<noteq> None} (compare f)"
    using sortFields_consistent_health[OF assms] by blast
  show "\<forall>f\<in>set (sortFields localeCompare errorsRatio).
      title f \<noteq> ''Error Rate'' \<longrightarrow> consistent_on UNIV (compare f)"
    using sortFields_consistent_sync[OF assms] by blast
  show "localeCompare (namespace a) (namespace b) = 0 \<longrightarrow>
      compare (sortFields localeCompare errorsRatio ! 0) a b
        = Inr (localeCompare (name a) (name b))"
    by (simp add: sortFields_def compareNamespace_def)
  show "compare (sortFields localeCompare errorsRatio ! 1) a b
      = Inr (localeCompare (name a) (name b))"
    by (simp add: sortFields_def compareServiceName_def)
  show "istioSidecar a = istioSidecar b \<longrightarrow>
      compare (sortFields localeCompare errorsRatio ! 2) a b
        = Inr (localeCompare (name a) (name b))"
    by (simp add: sortFields_def compareIstioSidecar_def)
  show "health a = Some healthA \<and> health b = Some healthB \<and>
    errorsRatio (requests healthA) = errorsRatio (requests healthB) \<longrightarrow>
      compare (sortFields localeCompare errorsRatio ! 3) a b
        = Inr (localeCompare (name a) (name b))"
    by (simp add: sortFields_def compareErrorRate_def)
  have "localeCompare x x = 0" for x
    using consistent_comparison_facts(1,4)[OF assms, of x x] by blast
  then show "name a = name b \<longrightarrow> compare (sortFields localeCompare errorsRatio ! 1) a b = Inr 0"
    by (simp add: sortFields_def compareServiceName_def)
qed

theorem sortFields_consistent_witness:
  "consistent_comparison codepoint_compare \<and>
   sortFields codepoint_compare (\<lambda>q::rat. q) ! 2 \<in> set (sortFields codepoint_compare (\<lambda>q. q)) \<and>
   title (sortFields codepoint_compare (\<lambda>q::rat. q) ! 2) \<noteq> ''Error Rate'' \<and>
   consistent_on UNIV (compare (sortFields codepoint_compare (\<lambda>q::rat. q) ! 2)) \<and>
   consistent_on {a. health a \<noteq> None} (compare (sortFields codepoint_compare (\<lambda>q::rat. q) ! 3)) \<and>
   codepoint_compare (namespace reviews) (namespace details) = 0 \<and>
   compare (sortFields codepoint_compare (\<lambda>q. q) ! 0) reviews details = Inr 1 \<and>
   istioSidecar reviews = istioSidecar reviews_shop \<and>
   name reviews = name reviews_shop \<and>
   compare (sortFields codepoint_compare (\<lambda>q. q) ! 2) reviews reviews_shop = Inr 0 \<and>
   compare (sortFields codepoint_compare (\<lambda>q. q) ! 1) reviews reviews_shop = Inr 0 \<and>
   health (reviews\<lparr>health := Some \<lparr>requests = 0\<rparr>\<rparr>) = Some \<lparr>requests = 0\<rparr> \<and>
   health (details\<lparr>health := Some \<lparr>requests = 0\<rparr>\<rparr>) = Some \<lparr>requests = 0\<rparr> \<and>
   compare (sortFields codepoint_compare (\<lambda>q. q) ! 3) (reviews\<lparr>health := Some \<lparr>requests = 0\<rparr>\<rparr>)
     (details\<lparr>health := Some \<lparr>requests = 0\<rparr>\<rparr>) = Inr 1"
proof -
  note c = consistent_codepoint_compare
  have m: "sortFields codepoint_compare (\<lambda>q::rat. q) ! 2 \<in> set (sortFields codepoint_compare (\<lambda>q. q))"
    "sortFields codepoint_compare (\<lambda>q::rat. q) ! 3 \<in> set (sortFields codepoint_compare (\<lambda>q. q))"
    and t: "title (sortFields codepoint_compare (\<lambda>q::rat. q) ! 2) \<noteq> ''Error Rate''"
    by (simp_all add: sortFields_def)
  have n: "codepoint_compare (name reviews) (name details) = 1"
    "codepoint_compare (name reviews) (name reviews_shop) = 0"
    "codepoint_compare (namespace reviews) (namespace details) = 0"
    "istioSidecar reviews = istioSidecar reviews_shop" "name reviews = name reviews_shop"
    by (simp_all add: codepoint_compare_def reviews_def details_def reviews_shop_def)
  show ?thesis
    using c m t n
      sortFields_consistent[OF c, of "\<lambda>q::rat. q" reviews details]
      sortFields_consistent[OF c, of "\<lambda>q::rat. q" reviews reviews_shop]
      sortFields_consistent[OF c, of "\<lambda>q::rat. q" "reviews\<lparr>health := Some \<lparr>requests = 0\<rparr>\<rparr>"
        "details\<lparr>health := Some \<lparr>requests = 0\<rparr>\<rparr>" "\<lparr>requests = 0\<rparr>" "\<lparr>requests = 0\<rparr>"]
    by (simp add: reviews_def details_def)
qed

text \<open>
  The claim as it stands fails: the comparator of the service name returns zero for two
  different items, services of the same name in two namespaces, so it is no strict total
  order and their order is the order in which they arrive. The names being equal, this
  is so for every consistent collation, not only for the one of the samples.
\<close>

theorem serviceName_tie_counterexample:
  "compare (sortFields codepoint_compare (\<lambda>q. q) ! 1) reviews reviews_shop = Inr 0 \<and>
   compare (sortFields codepoint_compare (\<lambda>q. q) ! 1) reviews_shop reviews = Inr 0 \<and>
   reviews \<noteq> reviews_shop \<and> namespace reviews \<noteq> namespace reviews_shop"
  by (simp add: sortFields_def compareServiceName_def codepoint_compare_def reviews_def
      reviews_shop_def)

subsection \<open>The synchronous sort\<close>

text \<open>
  Claim C3. For the sort fields \<open>Namespace\<close>, \<open>Service Name\<close> and \<open>Istio Sidecar\<close>, and
  for every consistent collation, \<^verbatim>\<open>sortServices\<close> returns a promise that is already
  fulfilled, whatever the schedule and the states of the health promises (the result is
  the one for the empty schedule). The list it resolves with is a permutation of the
  input list. When \<open>isAscending\<close> holds it is ordered by the comparator of the field: for
  an item \<open>a\<close> standing before an item \<open>b\<close>, \<open>compare a b\<close> is not positive. When
  \<open>isAscending\<close> is false it is ordered by the reversal: \<open>compare b a\<close> is not positive.
\<close>

theorem sortServices_sync:
  assumes "consistent_comparison localeCompare"
    and "f \<in> set (sortFields localeCompare errorsRatio)" and "title f \<noteq> ''Error Rate''"
  shows "\<exists>ys. sortServices schedule h arr f isAscending =
            (Inr (Fulfilled arr), h\<lparr>arrays := (arrays h)(arr := ys)\<rparr>) \<and>
          mset ys = mset (arrays h arr) \<and>
          sorted_wrt (\<lambda>a b. if isAscending then precedes (compare f) (items h a) (items h b)
                             else precedes (compare f) (items h b) (items h a)) ys \<and>
          sortServices schedule h arr f isAscending =
            sortServices [] h arr f isAscending"
proof -
  from sync_sort[OF assms, of h isAscending "arrays h arr"] obtain ys where
    ys: "array_sort (on_items h (direction isAscending (compare f))) (arrays h arr) = Inr ys"
      "mset ys = mset (arrays h arr)"
      "sorted_wrt (precedes (on_items h (direction isAscending (compare f)))) ys" by blast
  have "sortServices sch h arr f isAscending =
      (Inr (Fulfilled arr), h\<lparr>arrays := (arrays h)(arr := ys)\<rparr>)" for sch
    using assms(3) ys(1) by (simp add: sortServices_def)
  moreover have "sorted_wrt (\<lambda>a b. if isAscending then precedes (compare f) (items h a) (items h b)
                             else precedes (compare f) (items h b) (items h a)) ys"
    using ys(3) unfolding precedes_on_items_direction .
  ultimately show ?thesis using ys(2) by (intro exI[of _ ys]) simp
qed

theorem sortServices_sync_witness:
  "consistent_comparison codepoint_compare \<and>
   sortFields codepoint_compare (\<lambda>q::rat. q) ! 1 \<in> set (sortFields codepoint_compare (\<lambda>q. q)) \<and>
   title (sortFields codepoint_compare (\<lambda>q::rat. q) ! 1) \<noteq> ''Error Rate'' \<and>
   sortServices [2, 0] sample_heap 0 (sortFields codepoint_compare (\<lambda>q. q) ! 1) True =
     (Inr (Fulfilled 0), sample_heap\<lparr>arrays := (arrays sample_heap)(0 := [1, 0, 2])\<rparr>) \<and>
   sortServices [2, 0] sample_heap 0 (sortFields codepoint_compare (\<lambda>q. q) ! 1) False =
     (Inr (Fulfilled 0), sample_heap\<lparr>arrays := (arrays sample_heap)(0 := [0, 2, 1])\<rparr>) \<and>
   mset [1, 0, 2 :: nat] = mset (arrays sample_heap 0) \<and>
   mset [0, 2, 1 :: nat] = mset (arrays sample_heap 0) \<and>
   precedes (compare (sortFields codepoint_compare (\<lambda>q. q) ! 1)) (items sample_heap 1) (items sample_heap 0) \<and>
   \<not> precedes (compare (sortFields codepoint_compare (\<lambda>q. q) ! 1)) (items sample_heap 0) (items sample_heap 1)"
proof -
  note c = consistent_codepoint_compare
  have m: "sortFields codepoint_compare (\<lambda>q::rat. q) ! 1 \<in> set (sortFields codepoint_compare (\<lambda>q. q))"
    and t: "title (sortFields codepoint_compare (\<lambda>q::rat. q) ! 1) \<noteq> ''Error Rate''"
    using sample_field_sync by simp_all
  have asc: "ys = [1, 0, 2]"
    if "sortServices [2, 0] sample_heap 0 (sortFields codepoint_compare (\<lambda>q. q) ! 1) True =
      (Inr (Fulfilled 0), sample_heap\<lparr>arrays := (arrays sample_heap)(0 := ys)\<rparr>)" for ys
  proof -
    from that have "sample_heap\<lparr>arrays := (arrays sample_heap)(0 := ys)\<rparr> =
        sample_heap\<lparr>arrays := (arrays sample_heap)(0 := [1, 0, 2])\<rparr>"
      unfolding sample_sortServices_by_name by simp
    from arg_cong[OF this, of "\<lambda>h. arrays h 0"] show ?thesis by simp
  qed
  have desc: "ys = [0, 2, 1]"
    if "sortServices [2, 0] sample_heap 0 (sortFields codepoint_compare (\<lambda>q. q) ! 1) False =
      (Inr (Fulfilled 0), sample_heap\<lparr>arrays := (arrays sample_heap)(0 := ys)\<rparr>)" for ys
  proof -
    from that have "sample_heap\<lparr>arrays := (arrays sample_heap)(0 := ys)\<rparr> =
        sample_heap\<lparr>arrays := (arrays sample_heap)(0 := [0, 2, 1])\<rparr>"
      unfolding sample_sortServices_by_name by simp
    from arg_cong[OF this, of "\<lambda>h. arrays h 0"] show ?thesis by simp
  qed
  from sortServices_sync[OF c m t, of "[2, 0]" sample_heap 0 True] obtain ys where
    ys: "sortServices [2, 0] sample_heap 0 (sortFields codepoint_compare (\<lambda>q. q) ! 1) True =
      (Inr (Fulfilled 0), sample_heap\<lparr>arrays := (arrays sample_heap)(0 := ys)\<rparr>)"
      "mset ys = mset (arrays sample_heap 0)"
      "sorted_wrt (\<lambda>a b. precedes (compare (sortFields codepoint_compare (\<lambda>q. q) ! 1))
          (items sample_heap a) (items sample_heap b)) ys"
    by auto
  from sortServices_sync[OF c m t, of "[2, 0]" sample_heap 0 False] obtain zs where
    zs: "sortServices [2, 0] sample_heap 0 (sortFields codepoint_compare (\<lambda>q. q) ! 1) False =
      (Inr (Fulfilled 0), sample_heap\<lparr>arrays := (arrays sample_heap)(0 := zs)\<rparr>)"
      "mset zs = mset (arrays sample_heap 0)"
    by auto
  have p: "precedes (compare (sortFields codepoint_compare (\<lambda>q. q) ! 1)) (items sample_heap 1) (items sample_heap 0)"
    using ys(3) unfolding asc[OF ys(1)] by simp
  have q: "\<not> precedes (compare (sortFields codepoint_compare (\<lambda>q. q) ! 1)) (items sample_heap 0) (items sample_heap 1)"
    by (simp add: precedes_def sortFields_def compareServiceName_def codepoint_compare_def
        sample_heap_def reviews_def details_def)
  show ?thesis
    using c m t ys(1,2) zs(1,2) p q unfolding asc[OF ys(1)] desc[OF zs(1)] by simp
qed

text \<open>
  Claim C10. For these sort fields the promise is fulfilled with the address of the input
  array itself; after the call that address holds the sorted order, so every holder of the
  array sees it; no array is created, no other array and no item changes.
\<close>

theorem sortServices_in_place:
  assumes "f \<in> set (sortFields localeCompare errorsRatio)" and "title f \<noteq> ''Error Rate''"
  shows "fst (sortServices schedule h arr f isAscending) = Inr (Fulfilled arr) \<and>
         array_sort (on_items h (direction isAscending (compare f))) (arrays h arr)
           = Inr (arrays (snd (sortServices schedule h arr f isAscending)) arr) \<and>
         (\<forall>r. r \<noteq> arr \<longrightarrow>
            arrays (snd (sortServices schedule h arr f isAscending)) r = arrays h r) \<and>
         next_array (snd (sortServices schedule h arr f isAscending)) = next_array h \<and>
         items (snd (sortServices schedule h arr f isAscending)) = items h"
proof -
  from sync_sort_total[OF assms, of h isAscending "arrays h arr"] obtain ys where
    ys: "array_sort (on_items h (direction isAscending (compare f))) (arrays h arr) = Inr ys"
    by blast
  have "sortServices schedule h arr f isAscending =
      (Inr (Fulfilled arr), h\<lparr>arrays := (arrays h)(arr := ys)\<rparr>)"
    using assms(2) ys(1) by (simp add: sortServices_def)
  then show ?thesis using ys by simp
qed

theorem sortServices_in_place_witness:
  "sortFields codepoint_compare (\<lambda>q::rat. q) ! 1 \<in> set (sortFields codepoint_compare (\<lambda>q. q)) \<and>
   title (sortFields codepoint_compare (\<lambda>q::rat. q) ! 1) \<noteq> ''Error Rate'' \<and>
   arrays sample_heap 0 = [0, 1, 2] \<and>
   fst (sortServices [] sample_heap 0 (sortFields codepoint_compare (\<lambda>q. q) ! 1) True) = Inr (Fulfilled 0) \<and>
   arrays (snd (sortServices [] sample_heap 0 (sortFields codepoint_compare (\<lambda>q. q) ! 1) True)) 0 = [1, 0, 2] \<and>
   arrays (snd (sortServices [] sample_heap 0 (sortFields codepoint_compare (\<lambda>q. q) ! 1) True)) 1 = [0, 1]"
proof -
  have m: "sortFields codepoint_compare (\<lambda>q::rat. q) ! 1 \<in> set (sortFields codepoint_compare (\<lambda>q. q))"
    and t: "title (sortFields codepoint_compare (\<lambda>q::rat. q) ! 1) \<noteq> ''Error Rate''"
    using sample_field_sync by simp_all
  have a: "arrays sample_heap 0 = [0, 1, 2]" "arrays sample_heap 1 = [0, 1]"
    by (simp_all add: sample_heap_def)
  have s: "sortServices [] sample_heap 0 (sortFields codepoint_compare (\<lambda>q. q) ! 1) True =
     (Inr (Fulfilled 0), sample_heap\<lparr>arrays := (arrays sample_heap)(0 := [1, 0, 2])\<rparr>)"
    by (rule sample_sortServices_by_name)
  have "arrays (snd (sortServices [] sample_heap 0 (sortFields codepoint_compare (\<lambda>q. q) ! 1) True)) 1 = [0, 1]"
    using sortServices_in_place[OF m t, of "[]" sample_heap 0 True] a(2) by simp
  moreover have "fst (sortServices [] sample_heap 0 (sortFields codepoint_compare (\<lambda>q. q) ! 1) True) = Inr (Fulfilled 0)"
    using sortServices_in_place[OF m t, of "[]" sample_heap 0 True] by simp
  moreover have "arrays (snd (sortServices [] sample_heap 0 (sortFields codepoint_compare (\<lambda>q. q) ! 1) True)) 0 = [1, 0, 2]"
    unfolding s by simp
  ultimately show ?thesis using m t a(1) by simp
qed

subsection \<open>The health-dependent sort\<close>

lemma settle_append:
  "settle ps (xs @ ys) st = settle ps ys (settle ps xs st)"
proof (induction xs arbitrary: st)
  case Nil
  then show ?case by simp
next
  case (Cons i xs)
  obtain h rej where st: "st = (h, rej)" by (cases st)
  show ?case unfolding st by (simp add: Cons.IH split: promise.splits)
qed

lemma settle_frame:
  "arrays (fst (settle ps sched (h, rej))) = arrays h \<and>
   next_array (fst (settle ps sched (h, rej))) = next_array h"
  by (induction sched arbitrary: h rej) (simp_all add: attach_health_def split: promise.splits)

lemma settle_other_fields:
  "(items (fst (settle ps sched (h, rej))) r)\<lparr>health := x\<rparr> = (items h r)\<lparr>health := x\<rparr>"
  by (induction sched arbitrary: h rej) (simp_all add: attach_health_def split: promise.splits)

lemma settle_untouched:
  "r \<notin> fst ` set ps \<Longrightarrow> items (fst (settle ps sched (h, rej))) r = items h r"
proof (induction sched arbitrary: h rej)
  case Nil
  then show ?case by simp
next
  case (Cons i sched)
  have "fst (ps ! i) \<noteq> r" if "i < length ps"
    using that Cons.prems by (metis image_eqI nth_mem)
  then show ?case using Cons by (auto simp: attach_health_def split: promise.splits)
qed

lemma settle_keeps_rejection:
  "snd (settle ps sched (h, Some e)) = Some e"
  by (induction sched arbitrary: h) (simp_all split: promise.splits)

lemma settle_no_rejection:
  "\<forall>j\<in>set sched. j < length ps \<longrightarrow> (\<forall>e. snd (ps ! j) \<noteq> Rejected e) \<Longrightarrow>
   snd (settle ps sched (h, rej)) = rej"
  by (induction sched arbitrary: h) (auto split: promise.splits)

lemma settle_first_rejection:
  assumes "i < length ps" "snd (ps ! i) = Rejected e"
    "\<forall>j\<in>set pre. j < length ps \<longrightarrow> (\<forall>e'. snd (ps ! j) \<noteq> Rejected e')"
  shows "snd (settle ps (pre @ i # post) (h, None)) = Some e"
proof -
  obtain h1 where h1: "settle ps pre (h, None) = (h1, None)"
    using settle_no_rejection[OF assms(3), of h None] by (cases "settle ps pre (h, None)") simp
  have "settle ps (pre @ i # post) (h, None) = settle ps post (h1, Some e)"
    using assms(1,2) by (simp add: settle_append h1)
  then show ?thesis by (simp add: settle_keeps_rejection)
qed

lemma settle_keeps_health:
  assumes "\<forall>j<length ps. fst (ps ! j) = r \<longrightarrow> snd (ps ! j) = Fulfilled v \<or> (\<forall>w. snd (ps ! j) \<noteq> Fulfilled w)"
    "health (items h r) = Some v"
  shows "health (items (fst (settle ps sched (h, rej))) r) = Some v"
  using assms(2)
proof (induction sched arbitrary: h rej)
  case Nil
  then show ?case by simp
next
  case (Cons i sched)
  show ?case
  proof (cases "i < length ps")
    case False
    then show ?thesis using Cons by simp
  next
    case True
    show ?thesis
    proof (cases "snd (ps ! i)")
      case Pending
      then show ?thesis using True Cons by simp
    next
      case (Rejected e)
      then show ?thesis using True Cons by simp
    next
      case (Fulfilled w)
      have "health (items (attach_health h (fst (ps ! i)) w) r) = Some v"
      proof (cases "fst (ps ! i) = r")
        case True
        with assms(1) \<open>i < length ps\<close> Fulfilled have "w = v" by auto
        then show ?thesis using True by (simp add: attach_health_def)
      next
        case False
        then show ?thesis using Cons.prems by (simp add: attach_health_def)
      qed
      from Cons.IH[OF this] show ?thesis using True Fulfilled by simp
    qed
  qed
qed

lemma settle_attaches:
  assumes "\<forall>j<length ps. fst (ps ! j) = r \<longrightarrow> snd (ps ! j) = Fulfilled v \<or> (\<forall>w. snd (ps ! j) \<noteq> Fulfilled w)"
    "i \<in> set sched" "i < length ps" "ps ! i = (r, Fulfilled v)"
  shows "health (items (fst (settle ps sched (h, rej))) r) = Some v"
  using assms(2)
proof (induction sched arbitrary: h rej)
  case Nil
  then show ?case by simp
next
  case (Cons j sched)
  show ?case
  proof (cases "j = i")
    case True
    have "health (items (attach_health h r v) r) = Some v" by (simp add: attach_health_def)
    from settle_keeps_health[OF assms(1) this, of sched rej] show ?thesis
      using True assms(3,4) by simp
  next
    case False
    with Cons.prems have "i \<in> set sched" by simp
    from Cons.IH[OF this] show ?thesis by (simp split: promise.splits)
  qed
qed

lemma health_promises_nth:
  "i < length xs \<Longrightarrow>
   map (\<lambda>item. (item, healthPromise (items h item))) xs ! i = (xs ! i, healthPromise (items h (xs ! i)))"
  by simp

lemma item_with_health:
  assumes "(it'::'q ServiceItem)\<lparr>health := Some v\<rparr> = it\<lparr>health := Some v\<rparr>" "health it' = Some v"
  shows "it' = it\<lparr>health := Some v\<rparr>"
proof -
  have "it' = it'\<lparr>health := health it'\<rparr>" by simp
  also have "\<dots> = it'\<lparr>health := Some v\<rparr>" using assms(2) by simp
  finally show ?thesis using assms(1) by simp
qed

lemma settle_all_fulfilled:
  fixes h :: "'q heap"
  assumes all: "\<forall>r\<in>set xs. \<exists>v. healthPromise (items h r) = Fulfilled v"
    and ps: "ps = map (\<lambda>item. (item, healthPromise (items h item))) xs"
  shows "snd (settle ps sched (h, None)) = None"
    and "arrays (fst (settle ps sched (h, None))) = arrays h"
    and "next_array (fst (settle ps sched (h, None))) = next_array h"
    and "r \<notin> set xs \<Longrightarrow> items (fst (settle ps sched (h, None))) r = items h r"
    and "r \<in> set xs \<Longrightarrow> {..<length xs} \<subseteq> set sched \<Longrightarrow>
         items (fst (settle ps sched (h, None))) r
           = (items h r)\<lparr>health := resolved (healthPromise (items h r))\<rparr>"
proof -
  have len: "length ps = length xs" by (simp add: ps)
  have nth: "ps ! j = (xs ! j, healthPromise (items h (xs ! j)))" if "j < length xs" for j
    using that by (simp add: ps)
  have "\<forall>j\<in>set sched. j < length ps \<longrightarrow> (\<forall>e. snd (ps ! j) \<noteq> Rejected e)"
  proof (intro ballI impI allI)
    fix j e assume "j \<in> set sched" "j < length ps"
    then have j: "j < length xs" by (simp add: len)
    then obtain v where "healthPromise (items h (xs ! j)) = Fulfilled v"
      using all nth_mem by blast
    then show "snd (ps ! j) \<noteq> Rejected e" using nth[OF j] by simp
  qed
  from settle_no_rejection[OF this] show "snd (settle ps sched (h, None)) = None" .
  show "arrays (fst (settle ps sched (h, None))) = arrays h"
    and "next_array (fst (settle ps sched (h, None))) = next_array h"
    using settle_frame[of ps sched h None] by simp_all
  have img: "fst ` set ps = set xs" by (simp add: ps image_image)
  show "items (fst (settle ps sched (h, None))) r = items h r" if "r \<notin> set xs"
    using settle_untouched[of r ps sched h None] that img by simp
  show "items (fst (settle ps sched (h, None))) r
           = (items h r)\<lparr>health := resolved (healthPromise (items h r))\<rparr>"
    if r: "r \<in> set xs" and cover: "{..<length xs} \<subseteq> set sched"
  proof -
    from r obtain i where i: "i < length xs" "xs ! i = r" by (auto simp: in_set_conv_nth)
    from all r obtain v where v: "healthPromise (items h r) = Fulfilled v" by blast
    have c: "\<forall>j<length ps. fst (ps ! j) = r \<longrightarrow>
        snd (ps ! j) = Fulfilled v \<or> (\<forall>w. snd (ps ! j) \<noteq> Fulfilled w)"
      using nth v by (simp add: len)
    have "i \<in> set sched" using cover i(1) by auto
    moreover have "i < length ps" using i(1) by (simp add: len)
    moreover have "ps ! i = (r, Fulfilled v)" using nth[OF i(1)] i(2) v by simp
    ultimately have "health (items (fst (settle ps sched (h, None))) r) = Some v"
      using settle_attaches[OF c] by blast
    from item_with_health[OF settle_other_fields this]
    show ?thesis by (simp add: v resolved_def)
  qed
qed

lemma is_fulfilled_iff:
  "(case p of Fulfilled v \<Rightarrow> True | _ \<Rightarrow> False) \<longleftrightarrow> (\<exists>v. p = Fulfilled v)"
  by (cases p) simp_all

lemma joined_iff:
  "joined ps sched \<longleftrightarrow> (\<forall>i<length ps. i \<in> set sched \<and> (\<exists>v. snd (ps ! i) = Fulfilled v))"
  unfolding joined_def is_fulfilled_iff list_all_iff by auto

text \<open>
  Claim C1, as amended. For every consistent collation: when every health promise of the
  list resolves and every reaction has run, sorting by \<open>Error Rate\<close> fulfils with a new array that is a permutation of the
  input list, ordered by the comparator (or its reversal) on the resolved healths; the
  input array keeps its address and its order, and no other array changes. The resolved
  health is written into each input item itself, as its property \<open>health\<close>; nothing else
  of an item changes, and items outside the list are untouched. As long as the reaction of
  one position has not run, the promise is pending and nothing is compared.
\<close>

theorem sortServices_health:
  fixes h :: "'q heap"
  assumes coll: "consistent_comparison localeCompare"
    and field: "f \<in> set (sortFields localeCompare errorsRatio)" "title f = ''Error Rate''"
    and all: "\<forall>r\<in>set (arrays h arr). \<exists>v. healthPromise (items h r) = Fulfilled v"
    and sched: "set schedule = {..<length (arrays h arr)}"
    and old: "arr < next_array h"
  shows "\<exists>ys h'. sortServices schedule h arr f isAscending = (Inr (Fulfilled (next_array h)), h') \<and>
           arrays h' (next_array h) = ys \<and>
           mset ys = mset (arrays h arr) \<and>
           sorted_wrt (precedes (on_items h' (direction isAscending (compare f)))) ys \<and>
           (\<forall>r\<in>set (arrays h arr).
              items h' r = (items h r)\<lparr>health := resolved (healthPromise (items h r))\<rparr>) \<and>
           (\<forall>r. r \<notin> set (arrays h arr) \<longrightarrow> items h' r = items h r) \<and>
           (\<forall>r. r \<noteq> next_array h \<longrightarrow> arrays h' r = arrays h r) \<and>
           arrays h' arr = arrays h arr \<and>
           (\<forall>early. \<not> {..<length (arrays h arr)} \<subseteq> set early \<longrightarrow>
              fst (sortServices early h arr f isAscending) = Inr Pending)"
proof -
  define xs where "xs = arrays h arr"
  define ps where "ps = map (\<lambda>item. (item, healthPromise (items h item))) xs"
  define cmp where "cmp = direction isAscending (compare f)"
  have len: "length ps = length xs" by (simp add: ps_def)
  have e: "(title f = ''Error Rate'') = True" using field(2) by simp
  have all': "\<forall>r\<in>set xs. \<exists>v. healthPromise (items h r) = Fulfilled v"
    using all by (simp add: xs_def)
  note st = settle_all_fulfilled[OF all' ps_def]
  have ful: "\<exists>v. snd (ps ! i) = Fulfilled v" if "i < length xs" for i
    using that all' by (simp add: ps_def)
  \<comment> \<open>a schedule that covers every position\<close>
  define h1 where "h1 = fst (settle ps schedule (h, None))"
  have s1: "settle ps schedule (h, None) = (h1, None)"
    using st(1)[of schedule] by (simp add: h1_def prod_eq_iff)
  have j: "joined ps schedule"
    unfolding joined_iff using ful sched by (simp add: len xs_def)
  have a1: "arrays h1 = arrays h" "next_array h1 = next_array h"
    using st(2,3)[of schedule] by (simp_all add: h1_def)
  have i1: "items h1 r = (items h r)\<lparr>health := resolved (healthPromise (items h r))\<rparr>"
    if "r \<in> set xs" for r
    using st(5)[OF that, of schedule] sched by (simp add: h1_def xs_def)
  have i2: "items h1 r = items h r" if "r \<notin> set xs" for r
    using st(4)[OF that, of schedule] by (simp add: h1_def)
  define h2 where "h2 = h1\<lparr>arrays := (arrays h1)(next_array h1 := map fst ps), next_array := Suc (next_array h1)\<rparr>"
  have m: "map fst ps = xs" by (simp add: ps_def comp_def)
  have "consistent_on {a. health a \<noteq> None} cmp"
    unfolding cmp_def by (rule consistent_on_direction) (rule sortFields_consistent_health[OF coll field(1)])
  from consistent_on_items[OF this, of h2]
  have c: "consistent_on {r. health (items h2 r) \<noteq> None} (on_items h2 cmp)" by simp
  have "set xs \<subseteq> {r. health (items h2 r) \<noteq> None}"
  proof
    fix r assume r: "r \<in> set xs"
    then obtain v where "healthPromise (items h r) = Fulfilled v" using all' by blast
    then show "r \<in> {r. health (items h2 r) \<noteq> None}"
      using i1[OF r] by (simp add: h2_def resolved_def)
  qed
  from array_sort_sorted[OF c this] obtain ys where
    ys: "array_sort (on_items h2 cmp) xs = Inr ys" "mset ys = mset xs"
      "sorted_wrt (precedes (on_items h2 cmp)) ys" by blast
  define h' where "h' = h2\<lparr>arrays := (arrays h2)(next_array h1 := ys)\<rparr>"
  have a2: "arrays h2 (next_array h1) = xs" by (simp add: h2_def m)
  have res: "sortServices schedule h arr f isAscending = (Inr (Fulfilled (next_array h)), h')"
  proof -
    have "sortServices schedule h arr f isAscending = (Inr (Fulfilled (next_array h1)), h')"
      unfolding sortServices_def
      apply (simp only: e if_True)
      unfolding xs_def[symmetric] ps_def[symmetric] Let_def s1 cmp_def[symmetric]
      apply (simp only: prod.case option.case j if_True)
      unfolding h2_def[symmetric]
      apply (simp only: a2 ys(1) sum.case)
      unfolding h'_def[symmetric]
      apply (rule refl)
      done
    then show ?thesis by (simp only: a1)
  qed
  have o: "on_items h' cmp = on_items h2 cmp"
    by (simp add: on_items_def h'_def fun_eq_iff)
  have early: "fst (sortServices early h arr f isAscending) = Inr Pending"
    if "\<not> {..<length xs} \<subseteq> set early" for early
  proof -
    define h3 where "h3 = fst (settle ps early (h, None))"
    have s3: "settle ps early (h, None) = (h3, None)"
      using st(1)[of early] by (simp add: h3_def prod_eq_iff)
    have nj: "\<not> joined ps early"
      unfolding joined_iff using that by (auto simp: len)
    show ?thesis
      unfolding sortServices_def
      apply (simp only: e if_True)
      unfolding xs_def[symmetric] ps_def[symmetric] Let_def s3
      apply (simp only: prod.case option.case nj if_False fst_conv)
      done
  qed
  show ?thesis
  proof (intro exI[of _ ys] exI[of _ h'] conjI)
    show "sortServices schedule h arr f isAscending = (Inr (Fulfilled (next_array h)), h')"
      by (rule res)
    show "arrays h' (next_array h) = ys" by (simp add: h'_def a1)
    show "mset ys = mset (arrays h arr)" using ys(2) by (simp add: xs_def)
    show "sorted_wrt (precedes (on_items h' (direction isAscending (compare f)))) ys"
      using ys(3) o by (simp add: cmp_def)
    show "\<forall>r\<in>set (arrays h arr).
        items h' r = (items h r)\<lparr>health := resolved (healthPromise (items h r))\<rparr>"
      using i1 by (simp add: h'_def h2_def xs_def)
    show "\<forall>r. r \<notin> set (arrays h arr) \<longrightarrow> items h' r = items h r"
      using i2 by (simp add: h'_def h2_def xs_def)
    show "\<forall>r. r \<noteq> next_array h \<longrightarrow> arrays h' r = arrays h r"
      by (simp add: h'_def h2_def a1)
    show "arrays h' arr = arrays h arr"
      using old by (simp add: h'_def h2_def a1)
    show "\<forall>early. \<not> {..<length (arrays h arr)} \<subseteq> set early \<longrightarrow>
        fst (sortServices early h arr f isAscending) = Inr Pending"
      using early by (simp add: xs_def)
  qed
qed

lemma sample_error_rate_field:
  "sortFields codepoint_compare (\<lambda>q::rat. q) ! 3 \<in> set (sortFields codepoint_compare (\<lambda>q. q)) \<and>
   title (sortFields codepoint_compare (\<lambda>q::rat. q) ! 3) = ''Error Rate''"
  by (simp add: sortFields_def)

lemma sample_sortServices_by_error_rate:
  "fst (sortServices [1, 0] sample_heap 1 (sortFields codepoint_compare (\<lambda>q. q) ! 3) True) = Inr (Fulfilled 3) \<and>
   arrays (snd (sortServices [1, 0] sample_heap 1 (sortFields codepoint_compare (\<lambda>q. q) ! 3) True)) 3 = [1, 0] \<and>
   arrays (snd (sortServices [1, 0] sample_heap 1 (sortFields codepoint_compare (\<lambda>q. q) ! 3) True)) 1 = [0, 1] \<and>
   health (items (snd (sortServices [1, 0] sample_heap 1 (sortFields codepoint_compare (\<lambda>q. q) ! 3) True)) 0)
     = Some \<lparr>requests = 1 / 2\<rparr>"
  by (simp add: sortServices_def sortFields_def sample_heap_def reviews_def details_def
      joined_def attach_health_def on_items_def direction_def compareErrorRate_def
      codepoint_compare_def Let_def)

theorem sortServices_health_witness:
  "consistent_comparison codepoint_compare \<and>
   sortFields codepoint_compare (\<lambda>q::rat. q) ! 3 \<in> set (sortFields codepoint_compare (\<lambda>q. q)) \<and>
   title (sortFields codepoint_compare (\<lambda>q::rat. q) ! 3) = ''Error Rate'' \<and>
   arrays sample_heap 1 = [0, 1] \<and>
   healthPromise (items sample_heap 0) = Fulfilled \<lparr>requests = 1 / 2\<rparr> \<and>
   healthPromise (items sample_heap 1) = Fulfilled \<lparr>requests = 0\<rparr> \<and>
   set [1, 0] = {..<length (arrays sample_heap 1)} \<and>
   1 < next_array sample_heap \<and>
   fst (sortServices [1, 0] sample_heap 1 (sortFields codepoint_compare (\<lambda>q. q) ! 3) True) = Inr (Fulfilled 3) \<and>
   arrays (snd (sortServices [1, 0] sample_heap 1 (sortFields codepoint_compare (\<lambda>q. q) ! 3) True)) 3 = [1, 0] \<and>
   arrays (snd (sortServices [1, 0] sample_heap 1 (sortFields codepoint_compare (\<lambda>q. q) ! 3) True)) 1 = [0, 1] \<and>
   items (snd (sortServices [1, 0] sample_heap 1 (sortFields codepoint_compare (\<lambda>q. q) ! 3) True)) 0
     = reviews\<lparr>health := Some \<lparr>requests = 1 / 2\<rparr>\<rparr> \<and>
   fst (sortServices [1] sample_heap 1 (sortFields codepoint_compare (\<lambda>q. q) ! 3) True) = Inr Pending"
proof -
  have m: "sortFields codepoint_compare (\<lambda>q::rat. q) ! 3 \<in> set (sortFields codepoint_compare (\<lambda>q. q))"
    and t: "title (sortFields codepoint_compare (\<lambda>q::rat. q) ! 3) = ''Error Rate''"
    using sample_error_rate_field by simp_all
  have a: "arrays sample_heap 1 = [0, 1]" by (simp add: sample_heap_def)
  have p: "healthPromise (items sample_heap 0) = Fulfilled \<lparr>requests = 1 / 2\<rparr>"
    "healthPromise (items sample_heap 1) = Fulfilled \<lparr>requests = 0\<rparr>"
    "items sample_heap 0 = reviews"
    by (simp_all add: sample_heap_def reviews_def details_def)
  have all: "\<forall>r\<in>set (arrays sample_heap 1). \<exists>v. healthPromise (items sample_heap r) = Fulfilled v"
    by (simp add: sample_heap_def reviews_def details_def)
  have sched: "set [1, 0] = {..<length (arrays sample_heap 1)}"
    unfolding a by auto
  have old: "1 < next_array sample_heap" by (simp add: sample_heap_def)
  from sortServices_health[OF consistent_codepoint_compare m t all sched old, of True]
  obtain ys h' where
    r: "sortServices [1, 0] sample_heap 1 (sortFields codepoint_compare (\<lambda>q. q) ! 3) True
          = (Inr (Fulfilled (next_array sample_heap)), h')"
      "\<forall>r\<in>set (arrays sample_heap 1).
          items h' r = (items sample_heap r)\<lparr>health := resolved (healthPromise (items sample_heap r))\<rparr>"
      "\<forall>early. \<not> {..<length (arrays sample_heap 1)} \<subseteq> set early \<longrightarrow>
          fst (sortServices early sample_heap 1 (sortFields codepoint_compare (\<lambda>q. q) ! 3) True) = Inr Pending"
    by blast
  have i0: "items (snd (sortServices [1, 0] sample_heap 1 (sortFields codepoint_compare (\<lambda>q. q) ! 3) True)) 0
      = reviews\<lparr>health := Some \<lparr>requests = 1 / 2\<rparr>\<rparr>"
    using r(2) p unfolding r(1) a by (simp add: resolved_def)
  have "\<not> {..<length (arrays sample_heap 1)} \<subseteq> set [1::nat]" unfolding a by auto
  with r(3) have e: "fst (sortServices [1] sample_heap 1 (sortFields codepoint_compare (\<lambda>q. q) ! 3) True) = Inr Pending"
    by blast
  show ?thesis
    using consistent_codepoint_compare m t a p(1,2) sched old
      sample_sortServices_by_error_rate i0 e by simp
qed

text \<open>
  The claim as it stands fails: the input item at address 0 has no health before the call
  and carries the resolved health after it, so a holder of that item sees it changed.
\<close>

theorem sortServices_mutates_items_counterexample:
  "healthPromise (items sample_heap 0) = Fulfilled \<lparr>requests = 1 / 2\<rparr> \<and>
   healthPromise (items sample_heap 1) = Fulfilled \<lparr>requests = 0\<rparr> \<and>
   arrays sample_heap 1 = [0, 1] \<and>
   health (items sample_heap 0) = None \<and>
   health (items (snd (sortServices [1, 0] sample_heap 1 (sortFields codepoint_compare (\<lambda>q. q) ! 3) True)) 0)
     = Some \<lparr>requests = 1 / 2\<rparr> \<and>
   items (snd (sortServices [1, 0] sample_heap 1 (sortFields codepoint_compare (\<lambda>q. q) ! 3) True)) 0
     \<noteq> items sample_heap 0"
proof -
  have p: "healthPromise (items sample_heap 0) = Fulfilled \<lparr>requests = 1 / 2\<rparr>"
    "healthPromise (items sample_heap 1) = Fulfilled \<lparr>requests = 0\<rparr>"
    "arrays sample_heap 1 = [0, 1]" "health (items sample_heap 0) = None"
    by (simp_all add: sample_heap_def reviews_def details_def)
  have h: "health (items (snd (sortServices [1, 0] sample_heap 1 (sortFields codepoint_compare (\<lambda>q. q) ! 3) True)) 0)
     = Some \<lparr>requests = 1 / 2\<rparr>"
    using sample_sortServices_by_error_rate by simp
  then have "items (snd (sortServices [1, 0] sample_heap 1 (sortFields codepoint_compare (\<lambda>q. q) ! 3) True)) 0
     \<noteq> items sample_heap 0"
    using p(4) by (metis option.distinct(1))
  with p h show ?thesis by simp
qed

lemma sortServices_rejected:
  fixes h :: "'q heap"
  assumes "title f = ''Error Rate''"
    and "i < length (arrays h arr)"
    and "healthPromise (items h (arrays h arr ! i)) = Rejected e"
    and "\<forall>j\<in>set pre. j < length (arrays h arr) \<longrightarrow>
           (\<forall>e'. healthPromise (items h (arrays h arr ! j)) \<noteq> Rejected e')"
  shows "sortServices (pre @ i # post) h arr f isAscending =
     (Inr (Rejected e),
      fst (settle (map (\<lambda>item. (item, healthPromise (items h item))) (arrays h arr))
             (pre @ i # post) (h, None)))"
proof -
  define xs where "xs = arrays h arr"
  define ps where "ps = map (\<lambda>item. (item, healthPromise (items h item))) xs"
  have e: "(title f = ''Error Rate'') = True" using assms(1) by simp
  have len: "length ps = length xs" by (simp add: ps_def)
  have 1: "i < length ps" using assms(2) by (simp add: len xs_def)
  have 2: "snd (ps ! i) = Rejected e" using assms(2,3) by (simp add: ps_def xs_def)
  have 3: "\<forall>j\<in>set pre. j < length ps \<longrightarrow> (\<forall>e'. snd (ps ! j) \<noteq> Rejected e')"
    using assms(4) by (simp add: ps_def xs_def)
  define h1 where "h1 = fst (settle ps (pre @ i # post) (h, None))"
  have s1: "settle ps (pre @ i # post) (h, None) = (h1, Some e)"
    using settle_first_rejection[OF 1 2 3, of post h] by (simp add: h1_def prod_eq_iff)
  show ?thesis
    unfolding sortServices_def
    apply (simp only: e if_True)
    unfolding xs_def[symmetric] ps_def[symmetric] Let_def s1
    apply (simp only: prod.case option.case fst_conv)
    done
qed

text \<open>
  Claim C2. When, in the order of settlement, a health promise of the list is rejected
  and none before it is, the promise that \<^verbatim>\<open>sortServices\<close> returns for the sort by
  \<open>Error Rate\<close> is rejected with that reason, and \<^verbatim>\<open>updateSortField\<close> leaves the state of
  the component as it was: the same array of services with the same elements, the same
  sort field, no parameter change and no new array. (The items whose promises were
  fulfilled carry their health afterwards; their other properties are unchanged.)
\<close>

theorem updateSortField_rejection:
  fixes c :: "'q component"
  assumes "title f = ''Error Rate''"
    and "schedule = pre @ i # post"
    and "i < length (arrays (store c) (services (state c)))"
    and "healthPromise (items (store c) (arrays (store c) (services (state c)) ! i)) = Rejected e"
    and "\<forall>j\<in>set pre. j < length (arrays (store c) (services (state c))) \<longrightarrow>
           (\<forall>e'. healthPromise (items (store c) (arrays (store c) (services (state c)) ! j))
                  \<noteq> Rejected e')"
  shows "fst (sortServices schedule (store c) (services (state c)) f (isSortAscending (state c)))
           = Inr (Rejected e) \<and>
         (\<exists>c'. updateSortField schedule c f = Inr c' \<and>
            state c' = state c \<and>
            paramChanges c' = paramChanges c \<and>
            arrays (store c') = arrays (store c) \<and>
            next_array (store c') = next_array (store c) \<and>
            (\<forall>r. (items (store c') r)\<lparr>health := health (items (store c) r)\<rparr> = items (store c) r))"
proof -
  define ps where
    "ps = map (\<lambda>item. (item, healthPromise (items (store c) item))) (arrays (store c) (services (state c)))"
  define h1 where "h1 = fst (settle ps schedule (store c, None))"
  have r: "sortServices schedule (store c) (services (state c)) f (isSortAscending (state c))
      = (Inr (Rejected e), h1)"
    unfolding assms(2) h1_def ps_def
    by (rule sortServices_rejected[OF assms(1,3,4,5)])
  have u: "updateSortField schedule c f = Inr (c\<lparr>store := h1\<rparr>)"
    by (simp add: updateSortField_def r)
  have f: "arrays h1 = arrays (store c)" "next_array h1 = next_array (store c)"
    using settle_frame[where ps=ps and sched=schedule and h="store c" and rej=None]
    by (simp_all add: h1_def)
  have i: "(items h1 r)\<lparr>health := health (items (store c) r)\<rparr> = items (store c) r" for r
    using settle_other_fields[where ps=ps and sched=schedule and h="store c" and rej=None
        and r=r and x="health (items (store c) r)"]
    by (simp add: h1_def)
  show ?thesis
    using r u f i by simp
qed

theorem updateSortField_rejection_witness:
  "title (sortFields codepoint_compare (\<lambda>q::rat. q) ! 3) = ''Error Rate'' \<and>
   [0, 2, 1] = [0] @ 2 # [1::nat] \<and>
   arrays (store shop_component) (services (state shop_component)) = [0, 2, 3] \<and>
   healthPromise (items (store shop_component) 3) = Rejected (HealthError ''refused'') \<and>
   healthPromise (items (store shop_component) 2) = Rejected (HealthError ''timeout'') \<and>
   healthPromise (items (store shop_component) 0) = Fulfilled \<lparr>requests = 1 / 2\<rparr> \<and>
   fst (sortServices [0, 2, 1] (store shop_component) (services (state shop_component))
          (sortFields codepoint_compare (\<lambda>q. q) ! 3) (isSortAscending (state shop_component)))
     = Inr (Rejected (HealthError ''refused'')) \<and>
   (\<exists>c'. updateSortField [0, 2, 1] shop_component (sortFields codepoint_compare (\<lambda>q. q) ! 3) = Inr c' \<and>
      state c' = state shop_component \<and> paramChanges c' = [] \<and>
      arrays (store c') 2 = [0, 2, 3] \<and> health (items (store c') 0) = Some \<lparr>requests = 1 / 2\<rparr>)"
proof -
  have t: "title (sortFields codepoint_compare (\<lambda>q::rat. q) ! 3) = ''Error Rate''"
    using sample_error_rate_field by simp
  have s: "[0, 2, 1] = [0] @ 2 # [1::nat]" by simp
  have a: "arrays (store shop_component) (services (state shop_component)) = [0, 2, 3]"
    by (simp add: shop_component_def sample_component_def sample_heap_def)
  have p: "healthPromise (items (store shop_component) 3) = Rejected (HealthError ''refused'')"
    "healthPromise (items (store shop_component) 2) = Rejected (HealthError ''timeout'')"
    "healthPromise (items (store shop_component) 0) = Fulfilled \<lparr>requests = 1 / 2\<rparr>"
    "paramChanges shop_component = []" "services (state shop_component) = 2"
    "health (items (store shop_component) 0) = None"
    by (simp_all add: shop_component_def sample_component_def sample_heap_def
        ratings_def reviews_shop_def reviews_def)
  have i: "2 < length (arrays (store shop_component) (services (state shop_component)))"
    unfolding a by simp
  have r: "healthPromise (items (store shop_component)
      (arrays (store shop_component) (services (state shop_component)) ! 2))
      = Rejected (HealthError ''refused'')"
    unfolding a using p(1) by simp
  have q: "\<forall>j\<in>set [0]. j < length (arrays (store shop_component) (services (state shop_component))) \<longrightarrow>
      (\<forall>e'. healthPromise (items (store shop_component)
          (arrays (store shop_component) (services (state shop_component)) ! j)) \<noteq> Rejected e')"
    unfolding a using p(3) by simp
  from updateSortField_rejection[OF t s i r q] obtain c' where
    c: "fst (sortServices [0, 2, 1] (store shop_component) (services (state shop_component))
          (sortFields codepoint_compare (\<lambda>q. q) ! 3) (isSortAscending (state shop_component)))
        = Inr (Rejected (HealthError ''refused''))"
      "updateSortField [0, 2, 1] shop_component (sortFields codepoint_compare (\<lambda>q. q) ! 3) = Inr c'"
      "state c' = state shop_component" "paramChanges c' = paramChanges shop_component"
      "arrays (store c') = arrays (store shop_component)"
    by blast
  have u: "updateSortField [0, 2, 1] shop_component (sortFields codepoint_compare (\<lambda>q. q) ! 3) =
      Inr (shop_component\<lparr>store := fst (settle
        (map (\<lambda>item. (item, healthPromise (items (store shop_component) item))) [0, 2, 3])
        [0, 2, 1] (store shop_component, None))\<rparr>)"
    unfolding updateSortField_def s
      sortServices_rejected[OF t i r q, of "[1]" "isSortAscending (state shop_component)"]
    unfolding a by simp
  have "health (items (store c') 0) = Some \<lparr>requests = 1 / 2\<rparr>"
    using c(2) unfolding u by (auto simp: p attach_health_def)
  moreover have "arrays (store c') 2 = [0, 2, 3]" using c(5) a p(5) by simp
  ultimately show ?thesis
    using t s a p(1-4) c(1-4) by simp
qed

subsection \<open>The page\<close>

declare renderLoop.simps [simp del]

lemma renderLoop_done: "pageEnd \<le> i \<Longrightarrow> renderLoop h arr i pageEnd acc = Inr acc"
  by (subst renderLoop.simps) simp

lemma renderLoop_slice:
  "0 \<le> i \<Longrightarrow> pageEnd \<le> int (length arr) \<Longrightarrow>
   renderLoop h arr i pageEnd acc = Inr (acc @ map (link_of h) (slice arr i pageEnd))"
proof (induction h arr i pageEnd acc rule: renderLoop.induct)
  case (1 h arr i pageEnd serviceList)
  show ?case
  proof (cases "i < pageEnd")
    case False
    then show ?thesis by (simp add: renderLoop_done slice_def)
  next
    case True
    with "1.prems" have r: "0 \<le> i \<and> i < int (length arr)" by simp
    then have n: "nat i < length arr" by linarith
    have sl: "slice arr i pageEnd = arr ! nat i # slice arr (i + 1) pageEnd"
    proof -
      have "nat (pageEnd - i) = Suc (nat (pageEnd - (i + 1)))" using True by linarith
      moreover have "drop (nat i) arr = arr ! nat i # drop (nat (i + 1)) arr"
        using n r by (simp add: Cons_nth_drop_Suc nat_add_distrib)
      ultimately show ?thesis by (simp add: slice_def)
    qed
    have "renderLoop h arr i pageEnd serviceList =
        renderLoop h arr (i + 1) pageEnd (serviceList @ [link_of h (arr ! nat i)])"
      using True r by (subst renderLoop.simps) (simp add: link_of_def Let_def)
    also have "\<dots> = Inr ((serviceList @ [link_of h (arr ! nat i)]) @
        map (link_of h) (slice arr (i + 1) pageEnd))"
      using "1.IH"[OF True r refl refl] "1.prems" r by (simp add: link_of_def)
    finally show ?thesis by (simp add: sl)
  qed
qed

text \<open>
  Claim C8. For a page index of at least 1, whatever the page size and the list,
  \<^verbatim>\<open>render\<close> raises no error and shows the links of \<^verbatim>\<open>items[start:stop]\<close> with
  \<open>start = (page - 1) * perPage\<close> and \<open>stop = min (start + perPage) totalCount\<close>; when
  \<open>start\<close> is not below \<open>totalCount\<close> it shows nothing.
\<close>

theorem render_slice:
  assumes "1 \<le> page (pagination (state c))"
  shows "render c =
     (let items = arrays (store c) (services (state c));
          totalCount = int (length items);
          start = (page (pagination (state c)) - 1) * perPage (pagination (state c));
          stop = min (start + perPage (pagination (state c))) totalCount
      in Inr (map (link_of (store c)) (slice items start stop))) \<and>
     (int (length (arrays (store c) (services (state c))))
        \<le> (page (pagination (state c)) - 1) * perPage (pagination (state c))
      \<longrightarrow> render c = Inr [])"
proof -
  define arr where "arr = arrays (store c) (services (state c))"
  define pp where "pp = perPage (pagination (state c))"
  define start where "start = (page (pagination (state c)) - 1) * pp"
  define stop where "stop = min (start + pp) (int (length arr))"
  have r: "render c = renderLoop (store c) arr start stop []"
    unfolding render_def Let_def arr_def pp_def start_def stop_def
    by (rule arg_cong[where f = "\<lambda>e. renderLoop _ _ _ e []"]) (simp add: min_def)
  have main: "render c = Inr (map (link_of (store c)) (slice arr start stop))"
  proof (cases "0 \<le> pp")
    case True
    then have "0 \<le> start" using assms by (simp add: start_def)
    moreover have "stop \<le> int (length arr)" by (simp add: stop_def)
    ultimately show ?thesis unfolding r by (simp add: renderLoop_slice)
  next
    case False
    then have "stop \<le> start" by (simp add: stop_def min_def)
    then show ?thesis unfolding r by (simp add: renderLoop_done slice_def)
  qed
  have empty: "render c = Inr []" if "int (length arr) \<le> start"
  proof -
    have "stop \<le> start" using that by (simp add: stop_def)
    then have "slice arr start stop = []" by (simp add: slice_def)
    then show ?thesis using main by simp
  qed
  show ?thesis
    using main empty
    unfolding Let_def arr_def pp_def start_def stop_def by blast
qed

theorem render_slice_witness:
  "1 \<le> page (pagination (state sample_component)) \<and>
   render sample_component = Inr [Link ''/namespaces/shop/services/reviews''
                                      ''/namespaces/shop/services/reviews'' reviews_shop]"
proof -
  have p: "1 \<le> page (pagination (state sample_component))"
    by (simp add: sample_component_def)
  have "slice [0, 1, 2 :: nat] 2 3 = [2]"
    by (simp add: slice_def)
  then show ?thesis
    using p render_slice[OF p]
    by (simp add: sample_component_def sample_heap_def link_of_def reviews_shop_def)
qed

subsection \<open>The persisted store\<close>

text \<open>
  Claim C9. Whatever the values of the seven slices, persisting writes exactly the slices
  \<open>statusState\<close>, \<open>authentication\<close> and \<open>userSettings\<close>; whatever the storage holds at
  the start, the slices \<open>globalState\<close>, \<open>namespaces\<close>, \<open>messageCenter\<close> and \<open>graph\<close>
  start from their defaults; and with an empty storage the store starts as
  \<^verbatim>\<open>initialStore\<close>.
\<close>

theorem persist_whitelist:
  "persist persistConfig (initialStore d) =
     [(''statusState'', INITIAL_STATUS_STATE d),
      (''authentication'', INITIAL_LOGIN_STATE d),
      (''userSettings'', INITIAL_USER_SETTINGS_STATE d)] \<and>
   map_of (configureStore storage (initialStore d)) ''globalState'' = Some (INITIAL_GLOBAL_STATE d) \<and>
   map_of (configureStore storage (initialStore d)) ''namespaces'' = Some (INITIAL_NAMESPACE_STATE d) \<and>
   map_of (configureStore storage (initialStore d)) ''messageCenter'' = Some (INITIAL_MESSAGE_CENTER_STATE d) \<and>
   map_of (configureStore storage (initialStore d)) ''graph'' = Some (INITIAL_GRAPH_STATE d) \<and>
   configureStore Map.empty (initialStore d) = initialStore d"
  by (simp add: persist_def persistConfig_def initialStore_def configureStore_def rehydrate_def)

end
